theory Spec2Isabelle
  imports Complex_Main
begin

section \<open>JavaScript values used by sorted-ranges\<close>

text \<open>
  A JavaScript \<^verbatim>\<open>number\<close> handed to the library is a finite value (every finite double is a
  rational), \<^verbatim>\<open>NaN\<close> or one of the two infinities. Ranges that passed \<^verbatim>\<open>assertRange\<close> hold safe
  integers only, so everything stored in a map is an \<^typ>\<open>int\<close>: the code only ever adds or
  subtracts one from a stored endpoint, which is exact on doubles up to \<open>2 ^ 53\<close>.
\<close>

datatype number = Finite rat | NaN | PosInfinity | NegInfinity

text \<open>The two \<^verbatim>\<open>TypeError\<close>s the code can throw: the one \<^verbatim>\<open>assertRange\<close> throws, and the one
  JavaScript throws when an \<^verbatim>\<open>undefined\<close> array element is destructured.\<close>

datatype error = InvalidRange | NotIterable

type_synonym Range = "int \<times> int"
type_synonym ReadonlyRange = "number \<times> number"
type_synonym 'v RangeEntry = "Range \<times> 'v"
type_synonym 'v ReadonlyEntry = "ReadonlyRange \<times> 'v"

text \<open>
  The value of an entry is any JavaScript value. Equality in HOL is the identity of values
  (\<^verbatim>\<open>Object.is\<close>). The operator \<^verbatim>\<open>===\<close> differs from it on three numbers only: \<^verbatim>\<open>NaN\<close> is
  not equal to itself, and \<^verbatim>\<open>+0\<close> and \<^verbatim>\<open>-0\<close> are equal to each other. These three are
  constructors of their own; \<open>Other\<close> holds every other value (the other numbers, strings,
  booleans, \<^verbatim>\<open>null\<close>, \<^verbatim>\<open>undefined\<close>, and objects, which \<^verbatim>\<open>===\<close> compares by reference).
\<close>

datatype 'a Value = PositiveZero | NegativeZero | NotANumber | Other 'a

fun strictEquals :: "'a Value \<Rightarrow> 'a Value \<Rightarrow> bool" where
  "strictEquals NotANumber y = False"
| "strictEquals x NotANumber = False"
| "strictEquals PositiveZero NegativeZero = True"
| "strictEquals NegativeZero PositiveZero = True"
| "strictEquals x y = (x = y)"

text \<open>The class \<^verbatim>\<open>SortedRangeMap\<close> has the single field \<^verbatim>\<open>#entries\<close>; the class
  \<^verbatim>\<open>SortedRangeSet\<close> has the single field \<^verbatim>\<open>#map\<close>, a \<^verbatim>\<open>SortedRangeMap<0>\<close>: the only value
  it ever stores is the number \<^verbatim>\<open>0\<close>, here \<open>PositiveZero\<close>.\<close>

type_synonym 'v SortedRangeMap = "'v RangeEntry list"
type_synonym SortedRangeSet = "unit Value SortedRangeMap"

definition MAX_SAFE_INTEGER :: int where
  "MAX_SAFE_INTEGER = 2 ^ 53 - 1"

fun isSafeInteger :: "number \<Rightarrow> bool" where
  "isSafeInteger (Finite q) =
     (of_int \<lfloor>q\<rfloor> = q \<and> - MAX_SAFE_INTEGER \<le> \<lfloor>q\<rfloor> \<and> \<lfloor>q\<rfloor> \<le> MAX_SAFE_INTEGER)"
| "isSafeInteger _ = False"

text \<open>The relational operator \<^verbatim>\<open>>\<close> on numbers: every comparison with \<^verbatim>\<open>NaN\<close> is false.\<close>

fun number_gt :: "number \<Rightarrow> number \<Rightarrow> bool" where
  "number_gt (Finite a) (Finite b) = (a > b)"
| "number_gt NaN _ = False"
| "number_gt _ NaN = False"
| "number_gt PosInfinity PosInfinity = False"
| "number_gt PosInfinity _ = True"
| "number_gt NegInfinity _ = False"
| "number_gt (Finite a) PosInfinity = False"
| "number_gt (Finite a) NegInfinity = True"

fun integer_of :: "number \<Rightarrow> int" where
  "integer_of (Finite q) = \<lfloor>q\<rfloor>"
| "integer_of _ = 0"

text \<open>\<^verbatim>\<open>assertRange\<close>: throws unless both endpoints are safe integers with \<^verbatim>\<open>start <= end\<close>,
  and returns a fresh copy of the range.\<close>

fun assertRange :: "ReadonlyRange \<Rightarrow> error + Range" where
  "assertRange (start, end) =
     (if \<not> isSafeInteger start \<or> \<not> isSafeInteger end \<or> number_gt start end
      then Inl InvalidRange
      else Inr (integer_of start, integer_of end))"

text \<open>The bitwise operators convert their operand to 32 bits first: \<^verbatim>\<open>~\<close> to a signed,
  \<^verbatim>\<open>>>>\<close> to an unsigned 32-bit integer.\<close>

definition toInt32 :: "int \<Rightarrow> int" where
  "toInt32 x = (x + 2 ^ 31) mod 2 ^ 32 - 2 ^ 31"

definition bitNot :: "int \<Rightarrow> int" where
  "bitNot x = - toInt32 x - 1"

definition ushr1 :: "int \<Rightarrow> int" where
  "ushr1 x = (x mod 2 ^ 32) div 2"

text \<open>Reading \<^verbatim>\<open>array[i]\<close>: \<^verbatim>\<open>undefined\<close> (here \<open>None\<close>) outside the array.\<close>

definition entry_at :: "'a list \<Rightarrow> int \<Rightarrow> 'a option" where
  "entry_at xs i = (if 0 \<le> i \<and> i < int (length xs) then Some (xs ! nat i) else None)"

text \<open>\<^verbatim>\<open>Array.prototype.at\<close>: a negative index counts from the end.\<close>

definition array_at :: "'a list \<Rightarrow> int \<Rightarrow> 'a option" where
  "array_at xs i = entry_at xs (if i < 0 then int (length xs) + i else i)"

text \<open>\<^verbatim>\<open>Array.prototype.splice(start, deleteCount, ...items)\<close>: a negative start counts from
  the end, a start beyond the end is the end, and the delete count is clamped to what is
  there, a negative one to zero.\<close>

definition array_splice :: "'a list \<Rightarrow> int \<Rightarrow> int \<Rightarrow> 'a list \<Rightarrow> 'a list" where
  "array_splice xs start deleteCount items =
     (let len = int (length xs);
          actualStart = (if start < 0 then max (len + start) 0 else min start len);
          actualDeleteCount = min (max deleteCount 0) (len - actualStart)
      in take (nat actualStart) xs @ items @ drop (nat (actualStart + actualDeleteCount)) xs)"

section \<open>SortedRangeMap\<close>

definition SortedRangeMap_size :: "'v SortedRangeMap \<Rightarrow> int" where
  "SortedRangeMap_size entries = int (length entries)"

text \<open>The binary search of \<^verbatim>\<open>indexOf\<close>, with \<^verbatim>\<open>low\<close> and \<^verbatim>\<open>high\<close> as loop variables.\<close>

function SortedRangeMap_indexOf_loop ::
  "'v SortedRangeMap \<Rightarrow> int \<Rightarrow> int \<Rightarrow> int \<Rightarrow> error + int" where
  "SortedRangeMap_indexOf_loop entries key low high =
     (if low \<le> high then
        (let middle = low + ushr1 (high - low) in
         case entry_at entries middle of
           None \<Rightarrow> Inl NotIterable
         | Some ((start, end), _) \<Rightarrow>
             if key > end then SortedRangeMap_indexOf_loop entries key (middle + 1) high
             else if key < start then SortedRangeMap_indexOf_loop entries key low (middle - 1)
             else Inr middle)
      else Inr (bitNot low))"
  by pat_completeness auto
termination
proof (relation "measure (\<lambda>(entries, key, low, high). nat (high - low + 1))", goal_cases)
  case 1
  show ?case by simp
next
  case (2 entries key low high middle)
  have "(high - low) mod 2 ^ 32 \<le> high - low"
    using 2(1) by (intro zmod_le_nonneg_dividend) simp
  moreover have "0 \<le> (high - low) mod 2 ^ 32" by simp
  ultimately show ?case using 2 unfolding ushr1_def by simp
next
  case (3 entries key low high middle)
  have "(high - low) mod 2 ^ 32 \<le> high - low"
    using 3(1) by (intro zmod_le_nonneg_dividend) simp
  moreover have "0 \<le> (high - low) mod 2 ^ 32" by simp
  ultimately show ?case using 3 unfolding ushr1_def by simp
qed

definition SortedRangeMap_indexOf :: "'v SortedRangeMap \<Rightarrow> int \<Rightarrow> error + int" where
  "SortedRangeMap_indexOf entries key =
     SortedRangeMap_indexOf_loop entries key 0 (SortedRangeMap_size entries - 1)"

definition SortedRangeMap_has :: "'v SortedRangeMap \<Rightarrow> int \<Rightarrow> error + bool" where
  "SortedRangeMap_has entries key =
     (case SortedRangeMap_indexOf entries key of
        Inl e \<Rightarrow> Inl e
      | Inr index \<Rightarrow> Inr (index \<ge> 0))"

text \<open>\<^verbatim>\<open>cloneEntry\<close> and \<^verbatim>\<open>cloneRange\<close> copy the two-element arrays; on values they are the
  identity.\<close>

definition cloneRange :: "Range \<Rightarrow> Range" where
  "cloneRange r = (case r of (start, end) \<Rightarrow> (start, end))"

definition cloneEntry :: "'v RangeEntry \<Rightarrow> 'v RangeEntry" where
  "cloneEntry e = (case e of (r, v) \<Rightarrow> (cloneRange r, v))"

definition SortedRangeMap_get :: "'v SortedRangeMap \<Rightarrow> int \<Rightarrow> error + 'v RangeEntry option" where
  "SortedRangeMap_get entries key =
     (case SortedRangeMap_indexOf entries key of
        Inl e \<Rightarrow> Inl e
      | Inr index \<Rightarrow>
          if index \<ge> 0 then
            (case entry_at entries index of
               None \<Rightarrow> Inl NotIterable
             | Some entry \<Rightarrow> Inr (Some (cloneEntry entry)))
          else Inr None)"

definition SortedRangeMap_at :: "'v SortedRangeMap \<Rightarrow> int \<Rightarrow> 'v RangeEntry option" where
  "SortedRangeMap_at entries index =
     (case array_at entries index of
        None \<Rightarrow> None
      | Some entry \<Rightarrow> Some (cloneEntry entry))"

text \<open>\<^verbatim>\<open>#indicesOf\<close>: the indices of the first and the last entry that the range intersects;
  \<open>None\<close> is the \<^verbatim>\<open>undefined\<close> it returns when the range intersects no entry.\<close>

definition SortedRangeMap_indicesOf ::
  "'v SortedRangeMap \<Rightarrow> Range \<Rightarrow> error + (int \<times> int) option" where
  "SortedRangeMap_indicesOf entries rng =
     (case rng of (start, end) \<Rightarrow>
      case SortedRangeMap_indexOf entries start of
        Inl e \<Rightarrow> Inl e
      | Inr firstIndex \<Rightarrow>
         (case (if start = end then Inr firstIndex else SortedRangeMap_indexOf entries end) of
            Inl e \<Rightarrow> Inl e
          | Inr lastIndex \<Rightarrow>
              if firstIndex < 0 \<and> firstIndex = lastIndex then Inr None
              else
                (let firstIndex' = (if firstIndex < 0 then bitNot firstIndex else firstIndex);
                     lastIndex' = (if lastIndex < 0 then bitNot lastIndex - 1 else lastIndex)
                 in Inr (Some (firstIndex', lastIndex')))))"

text \<open>The methods that change \<^verbatim>\<open>#entries\<close> return the outcome (the returned value, or the
  error thrown) together with the entries as they are when the method returns or throws.\<close>

definition SortedRangeMap_maybeMergeWithPreviousEntry ::
  "'a Value SortedRangeMap \<Rightarrow> int \<Rightarrow> (error + unit) \<times> 'a Value SortedRangeMap" where
  "SortedRangeMap_maybeMergeWithPreviousEntry entries index =
     (if index = 0 then (Inr (), entries)
      else
        case entry_at entries index of
          None \<Rightarrow> (Inl NotIterable, entries)
        | Some ((start, end), v) \<Rightarrow>
           (case entry_at entries (index - 1) of
              None \<Rightarrow> (Inl NotIterable, entries)
            | Some ((previousStart, previousEnd), previousValue) \<Rightarrow>
                (let isMergeable = (previousEnd + 1 = start \<and> strictEquals previousValue v) in
                 if \<not> isMergeable then (Inr (), entries)
                 else (Inr (), (array_splice entries index 1 [])
                                 [nat (index - 1) := ((previousStart, end), previousValue)]))))"

definition SortedRangeMap_deleteFromSingleRange ::
  "'v SortedRangeMap \<Rightarrow> int \<Rightarrow> Range \<Rightarrow> (error + unit) \<times> 'v SortedRangeMap" where
  "SortedRangeMap_deleteFromSingleRange entries targetIndex rng =
     (case rng of (deleteStart, deleteEnd) \<Rightarrow>
      case entry_at entries targetIndex of
        None \<Rightarrow> (Inl NotIterable, entries)
      | Some ((targetStart, targetEnd), v) \<Rightarrow>
          if deleteStart \<le> targetStart then
            (if deleteEnd \<ge> targetEnd then (Inr (), array_splice entries targetIndex 1 [])
             else (Inr (), entries[nat targetIndex := ((deleteEnd + 1, targetEnd), v)]))
          else if deleteEnd \<ge> targetEnd then
            (Inr (), entries[nat targetIndex := ((targetStart, deleteStart - 1), v)])
          else
            (let rangeAfterDelete = (deleteEnd + 1, targetEnd) in
             (Inr (), array_splice (entries[nat targetIndex := ((targetStart, deleteStart - 1), v)])
                        (targetIndex + 1) 0 [(rangeAfterDelete, v)])))"

text \<open>\<^verbatim>\<open>#delete\<close>, the body shared by \<^verbatim>\<open>delete\<close> and \<^verbatim>\<open>set\<close>.\<close>

definition SortedRangeMap_private_delete ::
  "'v SortedRangeMap \<Rightarrow> Range \<Rightarrow> (error + bool) \<times> 'v SortedRangeMap" where
  "SortedRangeMap_private_delete entries rng =
     (case SortedRangeMap_indicesOf entries rng of
        Inl e \<Rightarrow> (Inl e, entries)
      | Inr None \<Rightarrow> (Inr False, entries)
      | Inr (Some (firstIndex, lastIndex)) \<Rightarrow>
         (case SortedRangeMap_deleteFromSingleRange entries lastIndex rng of
            (Inl e, entries1) \<Rightarrow> (Inl e, entries1)
          | (Inr _, entries1) \<Rightarrow>
             (let fullyContainedStartIndex = firstIndex + 1;
                  deleteCount = lastIndex - fullyContainedStartIndex;
                  entries2 = array_splice entries1 fullyContainedStartIndex deleteCount []
              in if firstIndex \<noteq> lastIndex then
                   (case SortedRangeMap_deleteFromSingleRange entries2 firstIndex rng of
                      (Inl e, entries3) \<Rightarrow> (Inl e, entries3)
                    | (Inr _, entries3) \<Rightarrow> (Inr True, entries3))
                 else (Inr True, entries2))))"

definition SortedRangeMap_delete ::
  "'v SortedRangeMap \<Rightarrow> ReadonlyRange \<Rightarrow> (error + bool) \<times> 'v SortedRangeMap" where
  "SortedRangeMap_delete entries rng =
     (case assertRange rng of
        Inl e \<Rightarrow> (Inl e, entries)
      | Inr checked \<Rightarrow> SortedRangeMap_private_delete entries checked)"

text \<open>\<^verbatim>\<open>set\<close> returns \<^verbatim>\<open>this\<close>: the outcome carries no value of its own, the map returned to
  the caller is the one whose entries are the second component.\<close>

definition SortedRangeMap_set ::
  "'a Value SortedRangeMap \<Rightarrow> ReadonlyRange \<Rightarrow> 'a Value \<Rightarrow>
     (error + unit) \<times> 'a Value SortedRangeMap" where
  "SortedRangeMap_set entries rng v =
     (case assertRange rng of
        Inl e \<Rightarrow> (Inl e, entries)
      | Inr checked \<Rightarrow>
         (case SortedRangeMap_private_delete entries checked of
            (Inl e, entries1) \<Rightarrow> (Inl e, entries1)
          | (Inr _, entries1) \<Rightarrow>
             (case SortedRangeMap_indexOf entries1 (fst checked) of
                Inl e \<Rightarrow> (Inl e, entries1)
              | Inr index \<Rightarrow>
                 (let insertIndex = bitNot index;
                      entries2 = array_splice entries1 insertIndex 0 [(checked, v)];
                      nextIndex = insertIndex + 1
                  in case (if nextIndex < SortedRangeMap_size entries2
                           then SortedRangeMap_maybeMergeWithPreviousEntry entries2 nextIndex
                           else (Inr (), entries2)) of
                       (Inl e, entries3) \<Rightarrow> (Inl e, entries3)
                     | (Inr _, entries3) \<Rightarrow>
                         SortedRangeMap_maybeMergeWithPreviousEntry entries3 insertIndex))))"

definition SortedRangeMap_clear :: "'v SortedRangeMap \<Rightarrow> unit \<times> 'v SortedRangeMap" where
  "SortedRangeMap_clear entries = ((), [])"

text \<open>The constructor: \<^verbatim>\<open>entries\<close> may be \<^verbatim>\<open>undefined\<close> or \<^verbatim>\<open>null\<close> (here \<open>None\<close>); a throwing
  \<^verbatim>\<open>set\<close> ends the construction and no map exists.\<close>

fun SortedRangeMap_constructor_loop ::
  "'a Value SortedRangeMap \<Rightarrow> 'a Value ReadonlyEntry list \<Rightarrow> error + 'a Value SortedRangeMap" where
  "SortedRangeMap_constructor_loop this [] = Inr this"
| "SortedRangeMap_constructor_loop this ((rng, v) # rest) =
     (case SortedRangeMap_set this rng v of
        (Inl e, _) \<Rightarrow> Inl e
      | (Inr _, this') \<Rightarrow> SortedRangeMap_constructor_loop this' rest)"

definition SortedRangeMap_constructor ::
  "'a Value ReadonlyEntry list option \<Rightarrow> error + 'a Value SortedRangeMap" where
  "SortedRangeMap_constructor entries =
     (case entries of
        None \<Rightarrow> Inr []
      | Some es \<Rightarrow> SortedRangeMap_constructor_loop [] es)"

text \<open>\<^verbatim>\<open>slice\<close> builds a new map and leaves \<^verbatim>\<open>this\<close> alone; \<^verbatim>\<open>Array.from({ length }, f)\<close>
  calls \<^verbatim>\<open>f\<close> on the indices below \<^verbatim>\<open>length\<close> (none when it is not positive), and each call
  destructures the entry it reads.\<close>

definition SortedRangeMap_slice ::
  "'v SortedRangeMap \<Rightarrow> ReadonlyRange \<Rightarrow> error + 'v SortedRangeMap" where
  "SortedRangeMap_slice entries rng =
     (case assertRange rng of
        Inl e \<Rightarrow> Inl e
      | Inr checked \<Rightarrow>
         (case SortedRangeMap_indicesOf entries checked of
            Inl e \<Rightarrow> Inl e
          | Inr None \<Rightarrow> Inr []
          | Inr (Some (firstIndex, lastIndex)) \<Rightarrow>
             (case those (map (\<lambda>index. map_option cloneEntry
                                          (entry_at entries (firstIndex + int index)))
                              [0 ..< nat (lastIndex - firstIndex + 1)]) of
                None \<Rightarrow> Inl NotIterable
              | Some entriesCopy \<Rightarrow>
                 (case checked of (start, end) \<Rightarrow>
                  case entry_at entriesCopy 0 of
                    None \<Rightarrow> Inl NotIterable
                  | Some ((firstStart, firstEnd), firstValue) \<Rightarrow>
                     (let entriesCopy1 =
                            entriesCopy[0 := ((max start firstStart, firstEnd), firstValue)]
                      in case array_at entriesCopy1 (- 1) of
                           None \<Rightarrow> Inl NotIterable
                         | Some ((lastStart, lastEnd), lastValue) \<Rightarrow>
                             Inr (entriesCopy1[length entriesCopy1 - 1 :=
                                    ((lastStart, min end lastEnd), lastValue)]))))))"

text \<open>The gap loop of \<^verbatim>\<open>hasAll\<close>, with \<^verbatim>\<open>index\<close> as loop variable.\<close>

function SortedRangeMap_hasAll_loop ::
  "'v SortedRangeMap \<Rightarrow> int \<Rightarrow> int \<Rightarrow> error + bool" where
  "SortedRangeMap_hasAll_loop entries index lastIndex =
     (if index \<le> lastIndex then
        (case entry_at entries (index - 1) of
           None \<Rightarrow> Inl NotIterable
         | Some ((_, previousEnd), _) \<Rightarrow>
            (case entry_at entries index of
               None \<Rightarrow> Inl NotIterable
             | Some ((currentStart, _), _) \<Rightarrow>
                 if previousEnd + 1 \<noteq> currentStart then Inr False
                 else SortedRangeMap_hasAll_loop entries (index + 1) lastIndex))
      else Inr True)"
  by pat_completeness auto
termination
  by (relation "measure (\<lambda>(entries, index, lastIndex). nat (lastIndex + 1 - index))") auto

definition SortedRangeMap_hasAll :: "'v SortedRangeMap \<Rightarrow> ReadonlyRange \<Rightarrow> error + bool" where
  "SortedRangeMap_hasAll entries rng =
     (case assertRange rng of
        Inl e \<Rightarrow> Inl e
      | Inr (start, end) \<Rightarrow>
         (case SortedRangeMap_indexOf entries start of
            Inl e \<Rightarrow> Inl e
          | Inr firstIndex \<Rightarrow>
              if firstIndex < 0 then Inr False
              else
                (case (if start = end then Inr firstIndex
                       else SortedRangeMap_indexOf entries end) of
                   Inl e \<Rightarrow> Inl e
                 | Inr lastIndex \<Rightarrow>
                     if lastIndex < 0 then Inr False
                     else SortedRangeMap_hasAll_loop entries (firstIndex + 1) lastIndex)))"

definition SortedRangeMap_hasAny :: "'v SortedRangeMap \<Rightarrow> ReadonlyRange \<Rightarrow> error + bool" where
  "SortedRangeMap_hasAny entries rng =
     (case assertRange rng of
        Inl e \<Rightarrow> Inl e
      | Inr (start, end) \<Rightarrow>
         (case SortedRangeMap_indexOf entries start of
            Inl e \<Rightarrow> Inl e
          | Inr firstIndex \<Rightarrow>
              if firstIndex \<ge> 0 then Inr True
              else
                (case (if start = end then Inr firstIndex
                       else SortedRangeMap_indexOf entries end) of
                   Inl e \<Rightarrow> Inl e
                 | Inr lastIndex \<Rightarrow>
                     if lastIndex \<ge> 0 then Inr True
                     else Inr (firstIndex \<noteq> lastIndex))))"

text \<open>The generators, as the finite lists they yield.\<close>

definition SortedRangeMap_entries :: "'v SortedRangeMap \<Rightarrow> 'v RangeEntry list" where
  "SortedRangeMap_entries entries = map cloneEntry entries"

definition SortedRangeMap_keys :: "'v SortedRangeMap \<Rightarrow> int list" where
  "SortedRangeMap_keys entries = concat (map (\<lambda>((start, end), _). [start .. end]) entries)"

definition SortedRangeMap_ranges :: "'v SortedRangeMap \<Rightarrow> Range list" where
  "SortedRangeMap_ranges entries = map (\<lambda>(r, _). cloneRange r) entries"

definition SortedRangeMap_values :: "'v SortedRangeMap \<Rightarrow> 'v list" where
  "SortedRangeMap_values entries = map (\<lambda>(_, v). v) entries"

section \<open>SortedRangeSet\<close>

text \<open>Every method forwards to the map in \<^verbatim>\<open>#map\<close>; \<^verbatim>\<open>add\<close> stores the value \<^verbatim>\<open>0\<close>.\<close>

definition SortedRangeSet_add ::
  "SortedRangeSet \<Rightarrow> ReadonlyRange \<Rightarrow> (error + unit) \<times> SortedRangeSet" where
  "SortedRangeSet_add this rng = SortedRangeMap_set this rng PositiveZero"

fun SortedRangeSet_constructor_loop ::
  "SortedRangeSet \<Rightarrow> ReadonlyRange list \<Rightarrow> error + SortedRangeSet" where
  "SortedRangeSet_constructor_loop this [] = Inr this"
| "SortedRangeSet_constructor_loop this (rng # rest) =
     (case SortedRangeSet_add this rng of
        (Inl e, _) \<Rightarrow> Inl e
      | (Inr _, this') \<Rightarrow> SortedRangeSet_constructor_loop this' rest)"

definition SortedRangeSet_constructor :: "ReadonlyRange list option \<Rightarrow> error + SortedRangeSet" where
  "SortedRangeSet_constructor ranges =
     (case SortedRangeMap_constructor None of
        Inl e \<Rightarrow> Inl e
      | Inr this \<Rightarrow>
         (case ranges of
            None \<Rightarrow> Inr this
          | Some rs \<Rightarrow> SortedRangeSet_constructor_loop this rs))"

definition SortedRangeSet_delete ::
  "SortedRangeSet \<Rightarrow> ReadonlyRange \<Rightarrow> (error + bool) \<times> SortedRangeSet" where
  "SortedRangeSet_delete this rng = SortedRangeMap_delete this rng"

definition SortedRangeSet_clear :: "SortedRangeSet \<Rightarrow> unit \<times> SortedRangeSet" where
  "SortedRangeSet_clear this = SortedRangeMap_clear this"

definition SortedRangeSet_slice :: "SortedRangeSet \<Rightarrow> ReadonlyRange \<Rightarrow> error + SortedRangeSet" where
  "SortedRangeSet_slice this rng =
     (case SortedRangeSet_constructor None of
        Inl e \<Rightarrow> Inl e
      | Inr copy \<Rightarrow>
         (case SortedRangeMap_slice this rng of
            Inl e \<Rightarrow> Inl e
          | Inr sliced \<Rightarrow> Inr sliced))"

definition SortedRangeSet_has :: "SortedRangeSet \<Rightarrow> int \<Rightarrow> error + bool" where
  "SortedRangeSet_has this key = SortedRangeMap_has this key"

definition SortedRangeSet_hasAll :: "SortedRangeSet \<Rightarrow> ReadonlyRange \<Rightarrow> error + bool" where
  "SortedRangeSet_hasAll this rng = SortedRangeMap_hasAll this rng"

definition SortedRangeSet_hasAny :: "SortedRangeSet \<Rightarrow> ReadonlyRange \<Rightarrow> error + bool" where
  "SortedRangeSet_hasAny this rng = SortedRangeMap_hasAny this rng"

definition SortedRangeSet_at :: "SortedRangeSet \<Rightarrow> int \<Rightarrow> Range option" where
  "SortedRangeSet_at this index =
     (case SortedRangeMap_at this index of
        None \<Rightarrow> None
      | Some (r, _) \<Rightarrow> Some r)"

definition SortedRangeSet_get :: "SortedRangeSet \<Rightarrow> int \<Rightarrow> error + Range option" where
  "SortedRangeSet_get this key =
     (case SortedRangeMap_get this key of
        Inl e \<Rightarrow> Inl e
      | Inr None \<Rightarrow> Inr None
      | Inr (Some (r, _)) \<Rightarrow> Inr (Some r))"

definition SortedRangeSet_indexOf :: "SortedRangeSet \<Rightarrow> int \<Rightarrow> error + int" where
  "SortedRangeSet_indexOf this key = SortedRangeMap_indexOf this key"

definition SortedRangeSet_size :: "SortedRangeSet \<Rightarrow> int" where
  "SortedRangeSet_size this = SortedRangeMap_size this"

definition SortedRangeSet_iterator :: "SortedRangeSet \<Rightarrow> Range list" where
  "SortedRangeSet_iterator this = SortedRangeMap_ranges this"

definition SortedRangeSet_keys :: "SortedRangeSet \<Rightarrow> int list" where
  "SortedRangeSet_keys this = SortedRangeMap_keys this"

section \<open>What the entries mean\<close>

text \<open>A key is covered by an entry when it lies within the inclusive bounds of its range; the
  association of a key is the value of the first entry covering it.\<close>

definition range_start :: "'v RangeEntry \<Rightarrow> int" where
  "range_start entry = fst (fst entry)"

definition range_end :: "'v RangeEntry \<Rightarrow> int" where
  "range_end entry = snd (fst entry)"

definition covers :: "int \<Rightarrow> 'v RangeEntry \<Rightarrow> bool" where
  "covers key entry = (range_start entry \<le> key \<and> key \<le> range_end entry)"

definition entry_of :: "'v SortedRangeMap \<Rightarrow> int \<Rightarrow> 'v RangeEntry option" where
  "entry_of entries key = find (covers key) entries"

definition value_at :: "'v SortedRangeMap \<Rightarrow> int \<Rightarrow> 'v option" where
  "value_at entries key = map_option snd (entry_of entries key)"

definition in_range :: "int \<Rightarrow> Range \<Rightarrow> bool" where
  "in_range key r = (fst r \<le> key \<and> key \<le> snd r)"

text \<open>Two consecutive entries are in order when the first ends before the second starts, and
  mergeable when they are adjacent and their values are equal, as \<^verbatim>\<open>===\<close> has it.\<close>

definition mergeable :: "'a Value RangeEntry \<Rightarrow> 'a Value RangeEntry \<Rightarrow> bool" where
  "mergeable a b = (range_end a + 1 = range_start b \<and> strictEquals (snd a) (snd b))"

definition linked :: "'a Value RangeEntry \<Rightarrow> 'a Value RangeEntry \<Rightarrow> bool" where
  "linked a b = (range_end a < range_start b \<and> \<not> mergeable a b)"

text \<open>The class invariant: every range has \<open>start \<le> end\<close>, consecutive entries are disjoint
  and sorted, and no two consecutive entries could be merged.\<close>

fun class_invariant :: "'a Value SortedRangeMap \<Rightarrow> bool" where
  "class_invariant [] = True"
| "class_invariant [a] = (range_start a \<le> range_end a)"
| "class_invariant (a # b # rest) =
     (range_start a \<le> range_end a \<and> linked a b \<and> class_invariant (b # rest))"

text \<open>What is left of an entry once the keys of a range are taken out of it: the part
  before the range and the part after it.\<close>

definition left_piece :: "Range \<Rightarrow> 'v RangeEntry \<Rightarrow> 'v RangeEntry list" where
  "left_piece r entry =
     (if range_start entry < fst r then [((range_start entry, fst r - 1), snd entry)] else [])"

definition right_piece :: "Range \<Rightarrow> 'v RangeEntry \<Rightarrow> 'v RangeEntry list" where
  "right_piece r entry =
     (if snd r < range_end entry then [((snd r + 1, range_end entry), snd entry)] else [])"

definition entry_without :: "Range \<Rightarrow> 'v RangeEntry \<Rightarrow> 'v RangeEntry list" where
  "entry_without r entry =
     (if range_end entry < fst r \<or> snd r < range_start entry then [entry]
      else left_piece r entry @ right_piece r entry)"

definition intersects :: "Range \<Rightarrow> 'v RangeEntry \<Rightarrow> bool" where
  "intersects r entry = (fst r \<le> range_end entry \<and> range_start entry \<le> snd r)"

text \<open>Two mergeable entries become one; \<^verbatim>\<open>set\<close> tries that for the new entry and its
  successor first, then for its predecessor and what the first step left.\<close>

definition merged :: "'a Value RangeEntry \<Rightarrow> 'a Value RangeEntry \<Rightarrow> 'a Value RangeEntry" where
  "merged a b = ((range_start a, range_end b), snd a)"

definition join ::
  "'a Value RangeEntry \<Rightarrow> 'a Value RangeEntry \<Rightarrow> 'a Value RangeEntry list" where
  "join a b = (if mergeable a b then [merged a b] else [a, b])"

definition merge_next ::
  "'a Value RangeEntry \<Rightarrow> 'a Value RangeEntry list \<Rightarrow> 'a Value RangeEntry list" where
  "merge_next new after = (case after of [] \<Rightarrow> [new] | b # rest \<Rightarrow> join new b @ rest)"

definition merge_prev ::
  "'a Value RangeEntry list \<Rightarrow> 'a Value RangeEntry list \<Rightarrow> 'a Value RangeEntry list" where
  "merge_prev before xs =
     (case xs of
        [] \<Rightarrow> before
      | n # rest \<Rightarrow> if before = [] then xs else butlast before @ join (last before) n @ rest)"

text \<open>The part of an entry that falls within a range.\<close>

definition clamp :: "Range \<Rightarrow> 'v RangeEntry \<Rightarrow> 'v RangeEntry" where
  "clamp r entry = ((max (fst r) (range_start entry), min (snd r) (range_end entry)), snd entry)"

section \<open>Sequences of operations\<close>

text \<open>The operations that change a map or make a new one, and the entries a caller holds
  after each of them: \<^verbatim>\<open>slice\<close> hands out the new map, and an operation that throws leaves
  the caller with the map as the throw left it.\<close>

datatype 'v map_mutation =
  Map_set ReadonlyRange 'v
| Map_delete ReadonlyRange
| Map_clear
| Map_slice ReadonlyRange

fun SortedRangeMap_apply ::
  "'a Value SortedRangeMap \<Rightarrow> 'a Value map_mutation \<Rightarrow> 'a Value SortedRangeMap" where
  "SortedRangeMap_apply this (Map_set rng v) = snd (SortedRangeMap_set this rng v)"
| "SortedRangeMap_apply this (Map_delete rng) = snd (SortedRangeMap_delete this rng)"
| "SortedRangeMap_apply this Map_clear = snd (SortedRangeMap_clear this)"
| "SortedRangeMap_apply this (Map_slice rng) =
     (case SortedRangeMap_slice this rng of Inl e \<Rightarrow> this | Inr sliced \<Rightarrow> sliced)"

fun states :: "('s \<Rightarrow> 'c \<Rightarrow> 's) \<Rightarrow> 's \<Rightarrow> 'c list \<Rightarrow> 's list" where
  "states step s [] = []"
| "states step s (c # cs) = step s c # states step (step s c) cs"

text \<open>The constructor of a map calls \<^verbatim>\<open>set\<close> once for every element of the iterable, on the
  map that starts empty; these are the calls it makes.\<close>

definition SortedRangeMap_construction ::
  "'a Value ReadonlyEntry list option \<Rightarrow> 'a Value map_mutation list" where
  "SortedRangeMap_construction entries =
     (case entries of None \<Rightarrow> [] | Some es \<Rightarrow> map (\<lambda>(rng, v). Map_set rng v) es)"

text \<open>The operations of a set, and what a caller observes of each: the value returned or
  the error thrown.\<close>

datatype set_command =
  Set_add ReadonlyRange
| Set_delete ReadonlyRange
| Set_clear
| Set_slice ReadonlyRange
| Set_has int
| Set_hasAll ReadonlyRange
| Set_hasAny ReadonlyRange
| Set_at int
| Set_get int
| Set_indexOf int
| Set_size
| Set_iterate
| Set_keys

datatype observation =
  Threw error
| Returned_this
| Returned_nothing
| Returned_boolean bool
| Returned_number int
| Returned_range "Range option"
| Returned_ranges "Range list"
| Returned_keys "int list"

fun SortedRangeSet_step :: "SortedRangeSet \<Rightarrow> set_command \<Rightarrow> observation \<times> SortedRangeSet" where
  "SortedRangeSet_step this (Set_add rng) =
     (case SortedRangeSet_add this rng of
        (Inl e, this') \<Rightarrow> (Threw e, this')
      | (Inr _, this') \<Rightarrow> (Returned_this, this'))"
| "SortedRangeSet_step this (Set_delete rng) =
     (case SortedRangeSet_delete this rng of
        (Inl e, this') \<Rightarrow> (Threw e, this')
      | (Inr deleted, this') \<Rightarrow> (Returned_boolean deleted, this'))"
| "SortedRangeSet_step this Set_clear =
     (case SortedRangeSet_clear this of (_, this') \<Rightarrow> (Returned_nothing, this'))"
| "SortedRangeSet_step this (Set_slice rng) =
     (case SortedRangeSet_slice this rng of
        Inl e \<Rightarrow> (Threw e, this)
      | Inr sliced \<Rightarrow> (Returned_ranges (SortedRangeSet_iterator sliced), sliced))"
| "SortedRangeSet_step this (Set_has key) =
     (case SortedRangeSet_has this key of
        Inl e \<Rightarrow> (Threw e, this)
      | Inr b \<Rightarrow> (Returned_boolean b, this))"
| "SortedRangeSet_step this (Set_hasAll rng) =
     (case SortedRangeSet_hasAll this rng of
        Inl e \<Rightarrow> (Threw e, this)
      | Inr b \<Rightarrow> (Returned_boolean b, this))"
| "SortedRangeSet_step this (Set_hasAny rng) =
     (case SortedRangeSet_hasAny this rng of
        Inl e \<Rightarrow> (Threw e, this)
      | Inr b \<Rightarrow> (Returned_boolean b, this))"
| "SortedRangeSet_step this (Set_at index) = (Returned_range (SortedRangeSet_at this index), this)"
| "SortedRangeSet_step this (Set_get key) =
     (case SortedRangeSet_get this key of
        Inl e \<Rightarrow> (Threw e, this)
      | Inr r \<Rightarrow> (Returned_range r, this))"
| "SortedRangeSet_step this (Set_indexOf key) =
     (case SortedRangeSet_indexOf this key of
        Inl e \<Rightarrow> (Threw e, this)
      | Inr index \<Rightarrow> (Returned_number index, this))"
| "SortedRangeSet_step this Set_size = (Returned_number (SortedRangeSet_size this), this)"
| "SortedRangeSet_step this Set_iterate = (Returned_ranges (SortedRangeSet_iterator this), this)"
| "SortedRangeSet_step this Set_keys = (Returned_keys (SortedRangeSet_keys this), this)"

text \<open>The constructor of a set calls \<^verbatim>\<open>add\<close> once for every element of the iterable.\<close>

definition SortedRangeSet_construction :: "ReadonlyRange list option \<Rightarrow> set_command list" where
  "SortedRangeSet_construction ranges =
     (case ranges of None \<Rightarrow> [] | Some rs \<Rightarrow> map Set_add rs)"

text \<open>The set as the specification describes it: a map used with one placeholder value, the
  value component stripped from everything it returns.\<close>

fun placeholder_map_step ::
  "'a Value \<Rightarrow> 'a Value SortedRangeMap \<Rightarrow> set_command \<Rightarrow>
     observation \<times> 'a Value SortedRangeMap" where
  "placeholder_map_step p m (Set_add rng) =
     (case SortedRangeMap_set m rng p of
        (Inl e, m') \<Rightarrow> (Threw e, m')
      | (Inr _, m') \<Rightarrow> (Returned_this, m'))"
| "placeholder_map_step p m (Set_delete rng) =
     (case SortedRangeMap_delete m rng of
        (Inl e, m') \<Rightarrow> (Threw e, m')
      | (Inr deleted, m') \<Rightarrow> (Returned_boolean deleted, m'))"
| "placeholder_map_step p m Set_clear =
     (case SortedRangeMap_clear m of (_, m') \<Rightarrow> (Returned_nothing, m'))"
| "placeholder_map_step p m (Set_slice rng) =
     (case SortedRangeMap_slice m rng of
        Inl e \<Rightarrow> (Threw e, m)
      | Inr sliced \<Rightarrow> (Returned_ranges (map fst (SortedRangeMap_entries sliced)), sliced))"
| "placeholder_map_step p m (Set_has key) =
     (case SortedRangeMap_has m key of
        Inl e \<Rightarrow> (Threw e, m)
      | Inr b \<Rightarrow> (Returned_boolean b, m))"
| "placeholder_map_step p m (Set_hasAll rng) =
     (case SortedRangeMap_hasAll m rng of
        Inl e \<Rightarrow> (Threw e, m)
      | Inr b \<Rightarrow> (Returned_boolean b, m))"
| "placeholder_map_step p m (Set_hasAny rng) =
     (case SortedRangeMap_hasAny m rng of
        Inl e \<Rightarrow> (Threw e, m)
      | Inr b \<Rightarrow> (Returned_boolean b, m))"
| "placeholder_map_step p m (Set_at index) =
     (Returned_range (map_option fst (SortedRangeMap_at m index)), m)"
| "placeholder_map_step p m (Set_get key) =
     (case SortedRangeMap_get m key of
        Inl e \<Rightarrow> (Threw e, m)
      | Inr entry \<Rightarrow> (Returned_range (map_option fst entry), m))"
| "placeholder_map_step p m (Set_indexOf key) =
     (case SortedRangeMap_indexOf m key of
        Inl e \<Rightarrow> (Threw e, m)
      | Inr index \<Rightarrow> (Returned_number index, m))"
| "placeholder_map_step p m Set_size = (Returned_number (SortedRangeMap_size m), m)"
| "placeholder_map_step p m Set_iterate =
     (Returned_ranges (map fst (SortedRangeMap_entries m)), m)"
| "placeholder_map_step p m Set_keys = (Returned_keys (SortedRangeMap_keys m), m)"

fun observations :: "('s \<Rightarrow> 'c \<Rightarrow> 'o \<times> 's) \<Rightarrow> 's \<Rightarrow> 'c list \<Rightarrow> 'o list" where
  "observations step s [] = []"
| "observations step s (c # cs) =
     (case step s c of (obs, s') \<Rightarrow> obs # observations step s' cs)"

section \<open>Bitwise operators on numbers that fit in 32 bits\<close>

lemma toInt32_id: "- (2 ^ 31) \<le> x \<Longrightarrow> x < 2 ^ 31 \<Longrightarrow> toInt32 x = x"
  unfolding toInt32_def by (simp add: mod_pos_pos_trivial)

lemma bitNot_eq: "- (2 ^ 31) \<le> x \<Longrightarrow> x < 2 ^ 31 \<Longrightarrow> bitNot x = - x - 1"
  unfolding bitNot_def by (simp add: toInt32_id)

section \<open>Strict equality\<close>

text \<open>\<^verbatim>\<open>===\<close> is symmetric and transitive, and reflexive on every value but \<^verbatim>\<open>NaN\<close>; values
  it takes for equal are the same value or the two zeros.\<close>

lemma strictEquals_iff:
  "strictEquals x y \<longleftrightarrow>
     x \<noteq> NotANumber \<and> y \<noteq> NotANumber \<and>
     (x = y \<or> x = PositiveZero \<and> y = NegativeZero \<or> x = NegativeZero \<and> y = PositiveZero)"
  by (cases x; cases y) auto

lemma strictEquals_sym: "strictEquals x y \<longleftrightarrow> strictEquals y x"
  by (auto simp: strictEquals_iff)

lemma strictEquals_trans: "strictEquals x y \<Longrightarrow> strictEquals y z \<Longrightarrow> strictEquals x z"
  by (auto simp: strictEquals_iff)

lemma strictEquals_self: "strictEquals x x \<longleftrightarrow> x \<noteq> NotANumber"
  by (simp add: strictEquals_iff)

lemma strictEquals_left: "strictEquals x y \<Longrightarrow> strictEquals x z \<longleftrightarrow> strictEquals y z"
  by (auto simp: strictEquals_iff)

section \<open>The class invariant\<close>

lemma inv_Cons:
  "class_invariant (a # es) \<longleftrightarrow>
     range_start a \<le> range_end a \<and> class_invariant es \<and> (es \<noteq> [] \<longrightarrow> linked a (hd es))"
  by (cases es) auto

lemma inv_append:
  "class_invariant (xs @ ys) \<longleftrightarrow>
     class_invariant xs \<and> class_invariant ys \<and>
     (xs \<noteq> [] \<and> ys \<noteq> [] \<longrightarrow> linked (last xs) (hd ys))"
proof (induction xs)
  case Nil
  show ?case by simp
next
  case (Cons a xs)
  show ?case
  proof (cases xs)
    case Nil
    then show ?thesis by (auto simp: inv_Cons)
  next
    case (Cons b zs)
    with Cons.IH show ?thesis by (auto simp: inv_Cons)
  qed
qed

lemma inv_valid: "class_invariant es \<Longrightarrow> e \<in> set es \<Longrightarrow> range_start e \<le> range_end e"
  by (induction es) (auto simp: inv_Cons)

lemma inv_sorted_wrt:
  "class_invariant es \<Longrightarrow> sorted_wrt (\<lambda>a b. range_end a < range_start b) es"
proof (induction es rule: class_invariant.induct)
  case 1
  show ?case by simp
next
  case (2 a)
  show ?case by simp
next
  case (3 a b rest)
  then have ab: "range_end a < range_start b" and b: "range_start b \<le> range_end b"
    and IH: "sorted_wrt (\<lambda>a b. range_end a < range_start b) (b # rest)"
    by (auto simp: linked_def inv_Cons)
  have "range_end a < range_start c" if "c \<in> set rest" for c
  proof -
    from IH that have "range_end b < range_start c" by simp
    with ab b show ?thesis by linarith
  qed
  with ab IH show ?case by auto
qed

lemma inv_sorted:
  assumes "class_invariant es" "i < j" "j < length es"
  shows "range_end (es ! i) < range_start (es ! j)"
  using inv_sorted_wrt [OF assms(1)] assms(2,3) by (simp add: sorted_wrt_iff_nth_less)

lemma inv_valid_nth: "class_invariant es \<Longrightarrow> i < length es \<Longrightarrow> range_start (es ! i) \<le> range_end (es ! i)"
  by (simp add: inv_valid)

section \<open>The binary search\<close>

lemma indexOf_loop_spec:
  "class_invariant es \<Longrightarrow> 0 \<le> low \<Longrightarrow> high < int (length es) \<Longrightarrow> low \<le> high + 1 \<Longrightarrow>
     (\<forall>j. j < nat low \<longrightarrow> range_end (es ! j) < key) \<Longrightarrow>
     (\<forall>j. nat (high + 1) \<le> j \<and> j < length es \<longrightarrow> key < range_start (es ! j)) \<Longrightarrow>
     (\<exists>i. SortedRangeMap_indexOf_loop es key low high = Inr (int i) \<and> i < length es \<and> covers key (es ! i))
     \<or> (\<exists>i. SortedRangeMap_indexOf_loop es key low high = Inr (bitNot (int i)) \<and> i \<le> length es \<and>
           (\<forall>j. j < i \<longrightarrow> range_end (es ! j) < key) \<and>
           (\<forall>j. i \<le> j \<and> j < length es \<longrightarrow> key < range_start (es ! j)))"
proof (induction es key low high rule: SortedRangeMap_indexOf_loop.induct)
  case (1 entries key low high)
  note inv = 1(3)
  show ?case
  proof (cases "low \<le> high")
    case False
    with 1(4,5,6) have lh: "low = high + 1" by simp
    have "SortedRangeMap_indexOf_loop entries key low high = Inr (bitNot (int (nat low)))"
      using False 1(4) by simp
    moreover have "nat low \<le> length entries" using 1(5) lh by simp
    ultimately show ?thesis using 1(7,8) lh by blast
  next
    case True
    define middle where "middle = low + ushr1 (high - low)"
    have "(high - low) mod 2 ^ 32 \<le> high - low"
      using True by (intro zmod_le_nonneg_dividend) simp
    moreover have "0 \<le> (high - low) mod 2 ^ 32" by simp
    ultimately have mid: "low \<le> middle" "middle \<le> high"
      unfolding middle_def ushr1_def by linarith+
    have midlt: "nat middle < length entries" using mid 1(4,5) by simp
    obtain s e v where ent: "entries ! nat middle = ((s, e), v)" by (metis prod.exhaust)
    have ea: "entry_at entries middle = Some ((s, e), v)"
      using mid 1(4,5) ent by (simp add: entry_at_def)
    have se: "s \<le> e"
      using inv_valid_nth [OF inv midlt] ent by (simp add: range_start_def range_end_def)
    consider (gt) "key > e" | (lt) "\<not> key > e" "key < s" | (hit) "\<not> key > e" "\<not> key < s"
      by blast
    then show ?thesis
    proof cases
      case gt
      have eq: "SortedRangeMap_indexOf_loop entries key low high =
                SortedRangeMap_indexOf_loop entries key (middle + 1) high"
        using True ea gt by (simp add: middle_def [symmetric] Let_def)
      have below: "\<forall>j. j < nat (middle + 1) \<longrightarrow> range_end (entries ! j) < key"
      proof (intro allI impI)
        fix j assume j: "j < nat (middle + 1)"
        show "range_end (entries ! j) < key"
        proof (cases "j = nat middle")
          case True
          then show ?thesis using ent gt by (simp add: range_end_def)
        next
          case False
          with j mid 1(4) have "j < nat middle" by linarith
          from inv_sorted [OF inv this midlt] ent se gt
          show ?thesis by (simp add: range_start_def)
        qed
      qed
      have "(\<exists>i. SortedRangeMap_indexOf_loop entries key (middle + 1) high = Inr (int i) \<and> i < length entries \<and> covers key (entries ! i))
         \<or> (\<exists>i. SortedRangeMap_indexOf_loop entries key (middle + 1) high = Inr (bitNot (int i)) \<and> i \<le> length entries \<and>
           (\<forall>j. j < i \<longrightarrow> range_end (entries ! j) < key) \<and>
           (\<forall>j. i \<le> j \<and> j < length entries \<longrightarrow> key < range_start (entries ! j)))"
        using mid 1(4,5) below 1(8)
        by (intro 1(1) [OF True middle_def ea refl refl gt inv]) auto
      then show ?thesis by (simp only: eq)
    next
      case lt
      have eq: "SortedRangeMap_indexOf_loop entries key low high =
                SortedRangeMap_indexOf_loop entries key low (middle - 1)"
        using True ea lt by (simp add: middle_def [symmetric] Let_def)
      have above: "\<forall>j. nat (middle - 1 + 1) \<le> j \<and> j < length entries \<longrightarrow> key < range_start (entries ! j)"
      proof (intro allI impI)
        fix j assume j: "nat (middle - 1 + 1) \<le> j \<and> j < length entries"
        show "key < range_start (entries ! j)"
        proof (cases "j = nat middle")
          case True
          then show ?thesis using ent lt by (simp add: range_start_def)
        next
          case False
          with j have "nat middle < j" by simp
          from inv_sorted [OF inv this] j ent se lt
          show ?thesis by (simp add: range_end_def)
        qed
      qed
      have "(\<exists>i. SortedRangeMap_indexOf_loop entries key low (middle - 1) = Inr (int i) \<and> i < length entries \<and> covers key (entries ! i))
         \<or> (\<exists>i. SortedRangeMap_indexOf_loop entries key low (middle - 1) = Inr (bitNot (int i)) \<and> i \<le> length entries \<and>
           (\<forall>j. j < i \<longrightarrow> range_end (entries ! j) < key) \<and>
           (\<forall>j. i \<le> j \<and> j < length entries \<longrightarrow> key < range_start (entries ! j)))"
        using mid 1(4,5) above 1(7)
        by (intro 1(2) [OF True middle_def ea refl refl lt(1) lt(2) inv]) auto
      then show ?thesis by (simp only: eq)
    next
      case hit
      have "SortedRangeMap_indexOf_loop entries key low high = Inr (int (nat middle))"
        using True ea hit mid 1(4) by (simp add: middle_def [symmetric] Let_def)
      moreover have "covers key (entries ! nat middle)"
        using ent hit by (simp add: covers_def range_start_def range_end_def)
      ultimately show ?thesis using midlt by blast
    qed
  qed
qed

lemma indexOf_spec:
  assumes "class_invariant es"
  shows "(\<exists>i. SortedRangeMap_indexOf es key = Inr (int i) \<and> i < length es \<and> covers key (es ! i))
     \<or> (\<exists>i. SortedRangeMap_indexOf es key = Inr (bitNot (int i)) \<and> i \<le> length es \<and>
           (\<forall>j. j < i \<longrightarrow> range_end (es ! j) < key) \<and>
           (\<forall>j. i \<le> j \<and> j < length es \<longrightarrow> key < range_start (es ! j)))"
  unfolding SortedRangeMap_indexOf_def SortedRangeMap_size_def
  by (rule indexOf_loop_spec [OF assms]) simp_all

lemma indexOf_cases [consumes 2, case_names found absent]:
  assumes "class_invariant es" "length es < 2 ^ 31"
  obtains (found) i where "SortedRangeMap_indexOf es key = Inr (int i)" "i < length es"
      "covers key (es ! i)"
    | (absent) i where "SortedRangeMap_indexOf es key = Inr (- int i - 1)" "i \<le> length es"
      "\<forall>j. j < i \<longrightarrow> range_end (es ! j) < key"
      "\<forall>j. i \<le> j \<and> j < length es \<longrightarrow> key < range_start (es ! j)"
proof -
  from indexOf_spec [OF assms(1), of key]
  show thesis
  proof (elim disjE exE conjE)
    fix i assume "SortedRangeMap_indexOf es key = Inr (int i)" "i < length es" "covers key (es ! i)"
    then show thesis by (rule found)
  next
    fix i assume a: "SortedRangeMap_indexOf es key = Inr (bitNot (int i))" "i \<le> length es"
      "\<forall>j. j < i \<longrightarrow> range_end (es ! j) < key"
      "\<forall>j. i \<le> j \<and> j < length es \<longrightarrow> key < range_start (es ! j)"
    have "int i < 2 ^ 31" using a(2) assms(2) by simp
    then have "bitNot (int i) = - int i - 1" by (simp add: bitNot_eq)
    with a show thesis by (intro absent [of i]) simp_all
  qed
qed

lemma covers_unique:
  assumes "class_invariant es" "i < length es" "j < length es"
    "covers key (es ! i)" "covers key (es ! j)"
  shows "i = j"
proof (rule ccontr)
  assume "i \<noteq> j"
  then consider "i < j" | "j < i" by linarith
  then show False
  proof cases
    case 1
    from inv_sorted [OF assms(1) 1 assms(3)] assms(4,5) show False
      by (simp add: covers_def)
  next
    case 2
    from inv_sorted [OF assms(1) 2 assms(2)] assms(4,5) show False
      by (simp add: covers_def)
  qed
qed

lemma first_index:
  assumes inv: "class_invariant es" and len: "length es < 2 ^ 31"
  obtains f where "f \<le> length es"
    "\<forall>j. j < f \<longrightarrow> range_end (es ! j) < key"
    "\<forall>j. f \<le> j \<and> j < length es \<longrightarrow> key \<le> range_end (es ! j)"
    "SortedRangeMap_indexOf es key = Inr (int f) \<and> f < length es \<and> covers key (es ! f)
     \<or> SortedRangeMap_indexOf es key = Inr (- int f - 1) \<and>
        (\<forall>j. f \<le> j \<and> j < length es \<longrightarrow> key < range_start (es ! j))"
  using inv len
proof (cases rule: indexOf_cases [where key = key])
  case (found i)
  have "\<forall>j. j < i \<longrightarrow> range_end (es ! j) < key"
    using inv_sorted [OF inv _ found(2)] found(3) by (fastforce simp: covers_def)
  moreover have "\<forall>j. i \<le> j \<and> j < length es \<longrightarrow> key \<le> range_end (es ! j)"
  proof (intro allI impI)
    fix j assume j: "i \<le> j \<and> j < length es"
    show "key \<le> range_end (es ! j)"
    proof (cases "i = j")
      case True
      with found(3) show ?thesis by (simp add: covers_def)
    next
      case False
      with j have "i < j" by simp
      from inv_sorted [OF inv this] j inv_valid_nth [OF inv, of j] found(3)
      show ?thesis by (simp add: covers_def)
    qed
  qed
  ultimately show thesis using found by (intro that [of i]) simp_all
next
  case (absent i)
  have "\<forall>j. i \<le> j \<and> j < length es \<longrightarrow> key \<le> range_end (es ! j)"
  proof (intro allI impI)
    fix j assume j: "i \<le> j \<and> j < length es"
    with absent(4) have "key < range_start (es ! j)" by blast
    with inv_valid_nth [OF inv, of j] j show "key \<le> range_end (es ! j)" by simp
  qed
  with absent show thesis by (intro that [of i]) simp_all
qed

lemma last_index:
  assumes inv: "class_invariant es" and len: "length es < 2 ^ 31"
  obtains u where "u \<le> length es"
    "\<forall>j. j < u \<longrightarrow> range_start (es ! j) \<le> key"
    "\<forall>j. u \<le> j \<and> j < length es \<longrightarrow> key < range_start (es ! j)"
    "SortedRangeMap_indexOf es key = Inr (int u - 1) \<and> 0 < u \<and> covers key (es ! (u - 1))
     \<or> SortedRangeMap_indexOf es key = Inr (- int u - 1) \<and>
        (\<forall>j. j < u \<longrightarrow> range_end (es ! j) < key)"
  using inv len
proof (cases rule: indexOf_cases [where key = key])
  case (found i)
  have "\<forall>j. j < Suc i \<longrightarrow> range_start (es ! j) \<le> key"
  proof (intro allI impI)
    fix j assume j: "j < Suc i"
    show "range_start (es ! j) \<le> key"
    proof (cases "i = j")
      case True
      with found(3) show ?thesis by (simp add: covers_def)
    next
      case False
      with j have ji: "j < i" by simp
      then have "j < length es" using found(2) by simp
      from inv_sorted [OF inv ji found(2)] inv_valid_nth [OF inv this] found(3)
      show ?thesis by (simp add: covers_def)
    qed
  qed
  moreover have "\<forall>j. Suc i \<le> j \<and> j < length es \<longrightarrow> key < range_start (es ! j)"
  proof (intro allI impI)
    fix j assume j: "Suc i \<le> j \<and> j < length es"
    then have "i < j" "j < length es" by simp_all
    from inv_sorted [OF inv this] found(3) show "key < range_start (es ! j)"
      by (simp add: covers_def)
  qed
  ultimately show thesis using found by (intro that [of "Suc i"]) simp_all
next
  case (absent i)
  have "\<forall>j. j < i \<longrightarrow> range_start (es ! j) \<le> key"
  proof (intro allI impI)
    fix j assume j: "j < i"
    with absent(3) have "range_end (es ! j) < key" by blast
    moreover have "j < length es" using j absent(2) by simp
    ultimately show "range_start (es ! j) \<le> key" using inv_valid_nth [OF inv, of j] by simp
  qed
  with absent show thesis by (intro that [of i]) simp_all
qed

lemma indicesOf_spec:
  assumes inv: "class_invariant es" and len: "length es < 2 ^ 31" and le: "ds \<le> de"
  shows "(SortedRangeMap_indicesOf es (ds, de) = Inr None \<and>
            (\<forall>e \<in> set es. range_end e < ds \<or> de < range_start e))
       \<or> (\<exists>f l. SortedRangeMap_indicesOf es (ds, de) = Inr (Some (int f, int l)) \<and>
              f \<le> l \<and> l < length es \<and>
              (\<forall>j. j < f \<longrightarrow> range_end (es ! j) < ds) \<and> ds \<le> range_end (es ! f) \<and>
              range_start (es ! l) \<le> de \<and>
              (\<forall>j. l < j \<and> j < length es \<longrightarrow> de < range_start (es ! j)))"
proof -
  obtain f where f: "f \<le> length es"
    "\<forall>j. j < f \<longrightarrow> range_end (es ! j) < ds"
    "\<forall>j. f \<le> j \<and> j < length es \<longrightarrow> ds \<le> range_end (es ! j)"
    "SortedRangeMap_indexOf es ds = Inr (int f) \<and> f < length es \<and> covers ds (es ! f)
     \<or> SortedRangeMap_indexOf es ds = Inr (- int f - 1) \<and>
        (\<forall>j. f \<le> j \<and> j < length es \<longrightarrow> ds < range_start (es ! j))"
    by (rule first_index [OF inv len, of ds]) blast
  obtain u where u: "u \<le> length es"
    "\<forall>j. j < u \<longrightarrow> range_start (es ! j) \<le> de"
    "\<forall>j. u \<le> j \<and> j < length es \<longrightarrow> de < range_start (es ! j)"
    "SortedRangeMap_indexOf es de = Inr (int u - 1) \<and> 0 < u \<and> covers de (es ! (u - 1))
     \<or> SortedRangeMap_indexOf es de = Inr (- int u - 1) \<and>
        (\<forall>j. j < u \<longrightarrow> range_end (es ! j) < de)"
    by (rule last_index [OF inv len, of de]) blast
  have fu: "f \<le> u"
  proof (rule ccontr)
    assume "\<not> f \<le> u"
    then have uf: "u < f" by simp
    then have ul: "u < length es" using f(1) by simp
    from f(2) uf have "range_end (es ! u) < ds" by blast
    moreover from u(3) ul have "de < range_start (es ! u)" by blast
    ultimately show False using inv_valid_nth [OF inv ul] le by simp
  qed
  have bn: "bitNot (- int f - 1) = int f" "bitNot (- int u - 1) = int u"
    using f(1) u(1) len by (simp_all add: bitNot_eq)
  show ?thesis
  proof (cases "f = u")
    case True
    have none: "\<forall>e \<in> set es. range_end e < ds \<or> de < range_start e"
    proof
      fix e assume "e \<in> set es"
      then obtain j where j: "j < length es" "e = es ! j" by (auto simp: in_set_conv_nth)
      show "range_end e < ds \<or> de < range_start e"
        using f(2) u(3) j True by (cases "j < f") auto
    qed
    have nf: "\<not> (f < length es \<and> covers ds (es ! f))"
      using u(3) True le by (fastforce simp: covers_def)
    have nu: "\<not> (0 < u \<and> covers de (es ! (u - 1)))"
    proof
      assume a: "0 < u \<and> covers de (es ! (u - 1))"
      then have "u - 1 < f" using True by simp
      with f(2) have "range_end (es ! (u - 1)) < ds" by blast
      with a le show False by (simp add: covers_def)
    qed
    from f(4) nf have i1: "SortedRangeMap_indexOf es ds = Inr (- int f - 1)" by blast
    from u(4) nu have i2: "SortedRangeMap_indexOf es de = Inr (- int u - 1)" by blast
    have "SortedRangeMap_indicesOf es (ds, de) = Inr None"
      using i1 i2 True by (simp add: SortedRangeMap_indicesOf_def)
    with none show ?thesis by blast
  next
    case False
    with fu have lt: "f < u" by simp
    define l where "l = u - 1"
    have l: "f \<le> l" "l < length es" "int l = int u - 1" "l < u"
      using lt u(1) by (simp_all add: l_def)
    from f(4) consider (ff) "SortedRangeMap_indexOf es ds = Inr (int f)" "f < length es"
        "covers ds (es ! f)"
      | (fa) "SortedRangeMap_indexOf es ds = Inr (- int f - 1)"
        "\<forall>j. f \<le> j \<and> j < length es \<longrightarrow> ds < range_start (es ! j)"
      by blast
    then have res: "SortedRangeMap_indicesOf es (ds, de) = Inr (Some (int f, int l))"
    proof cases
      case ff
      show ?thesis
      proof (cases "ds = de")
        case True
        have "f = l"
        proof (rule ccontr)
          assume "f \<noteq> l"
          with l(1) have fl: "f < l" by simp
          from u(2) l(4) have "range_start (es ! l) \<le> de" by blast
          with inv_sorted [OF inv fl l(2)] ff(3) True show False by (simp add: covers_def)
        qed
        then show ?thesis using ff(1) True by (simp add: SortedRangeMap_indicesOf_def)
      next
        case False
        from u(4) show ?thesis
        proof (elim disjE conjE)
          assume "SortedRangeMap_indexOf es de = Inr (int u - 1)"
          then show ?thesis using ff(1) False l(3) lt
            by (simp add: SortedRangeMap_indicesOf_def)
        next
          assume "SortedRangeMap_indexOf es de = Inr (- int u - 1)"
          then show ?thesis using ff(1) False l(3) bn
            by (simp add: SortedRangeMap_indicesOf_def)
        qed
      qed
    next
      case fa
      have ne: "ds \<noteq> de"
      proof
        assume "ds = de"
        moreover from u(2) lt have "range_start (es ! f) \<le> de" by blast
        moreover from fa(2) l have "ds < range_start (es ! f)" by auto
        ultimately show False by simp
      qed
      from u(4) show ?thesis
      proof (elim disjE conjE)
        assume "SortedRangeMap_indexOf es de = Inr (int u - 1)"
        then show ?thesis using fa(1) ne l(3) lt bn
          by (simp add: SortedRangeMap_indicesOf_def)
      next
        assume "SortedRangeMap_indexOf es de = Inr (- int u - 1)"
        then show ?thesis using fa(1) ne l(3) bn lt
          by (simp add: SortedRangeMap_indicesOf_def)
      qed
    qed
    from res have "SortedRangeMap_indicesOf es (ds, de) = Inr (Some (int f, int l))" .
    moreover have "ds \<le> range_end (es ! f)" using f(3) l by auto
    moreover have "range_start (es ! l) \<le> de" using u(2) l by auto
    moreover have "\<forall>j. l < j \<and> j < length es \<longrightarrow> de < range_start (es ! j)"
      using u(3) l_def by auto
    ultimately show ?thesis using l f(2) by blast
  qed
qed

lemma no_cover_if_absent:
  assumes "\<forall>j. j < i \<longrightarrow> range_end (es ! j) < key"
    "\<forall>j. i \<le> j \<and> j < length es \<longrightarrow> key < range_start (es ! j)"
  shows "\<forall>e \<in> set es. \<not> covers key e"
proof
  fix e assume "e \<in> set es"
  then obtain j where j: "j < length es" "e = es ! j" by (auto simp: in_set_conv_nth)
  show "\<not> covers key e"
  proof (cases "j < i")
    case True
    with assms(1) have "range_end (es ! j) < key" by blast
    with j show ?thesis by (simp add: covers_def)
  next
    case False
    with assms(2) j have "key < range_start (es ! j)" by simp
    with j show ?thesis by (simp add: covers_def)
  qed
qed

text \<open>
  Claim C5. On a map or set that satisfies the class invariant, \<^verbatim>\<open>indexOf(key)\<close> returns the
  index of the entry whose range covers the key when there is one; otherwise it returns
  \<^verbatim>\<open>~insertionIndex\<close>, which is \<open>- (insertionIndex + 1)\<close>, where every entry before the
  insertion index ends before the key and every entry from it on starts after the key. On an
  empty structure the result is \<^verbatim>\<open>~0\<close>, that is \<open>- 1\<close>. The operator \<^verbatim>\<open>~\<close> works on 32 bits,
  so the statement is for arrays of fewer than \<open>2 ^ 31\<close> entries.
\<close>

theorem indexOf_correct:
  assumes "class_invariant entries" "length entries < 2 ^ 31"
  shows "(if \<exists>entry \<in> set entries. covers key entry
          then \<exists>i. SortedRangeMap_indexOf entries key = Inr (int i) \<and> i < length entries \<and>
                 covers key (entries ! i)
          else \<exists>i. SortedRangeMap_indexOf entries key = Inr (bitNot (int i)) \<and>
                 bitNot (int i) = - (int i + 1) \<and> i \<le> length entries \<and>
                 (\<forall>j. j < i \<longrightarrow> range_end (entries ! j) < key) \<and>
                 (\<forall>j. i \<le> j \<and> j < length entries \<longrightarrow> key < range_start (entries ! j)))
         \<and> SortedRangeSet_indexOf s key = SortedRangeMap_indexOf s key
         \<and> SortedRangeMap_indexOf ([] :: 'v SortedRangeMap) key = Inr (bitNot 0)
         \<and> bitNot 0 = - 1"
proof -
  have empty: "SortedRangeMap_indexOf ([] :: 'v SortedRangeMap) key = Inr (bitNot 0)"
    by (simp add: SortedRangeMap_indexOf_def SortedRangeMap_size_def)
  have b0: "bitNot 0 = - 1" by (simp add: bitNot_eq)
  have main: "if \<exists>entry \<in> set entries. covers key entry
          then \<exists>i. SortedRangeMap_indexOf entries key = Inr (int i) \<and> i < length entries \<and>
                 covers key (entries ! i)
          else \<exists>i. SortedRangeMap_indexOf entries key = Inr (bitNot (int i)) \<and>
                 bitNot (int i) = - (int i + 1) \<and> i \<le> length entries \<and>
                 (\<forall>j. j < i \<longrightarrow> range_end (entries ! j) < key) \<and>
                 (\<forall>j. i \<le> j \<and> j < length entries \<longrightarrow> key < range_start (entries ! j))"
    using assms
  proof (cases rule: indexOf_cases [where key = key])
    case (found i)
    then have "\<exists>entry \<in> set entries. covers key entry" using nth_mem by blast
    with found show ?thesis by auto
  next
    case (absent i)
    have "\<forall>e \<in> set entries. \<not> covers key e"
      by (rule no_cover_if_absent [OF absent(3,4)])
    moreover have "bitNot (int i) = - (int i + 1)"
      using absent(2) assms(2) by (simp add: bitNot_eq)
    ultimately show ?thesis using absent by (simp del: bitNot_eq) (intro exI [of _ i], simp)
  qed
  show ?thesis using main empty b0 by (simp add: SortedRangeSet_indexOf_def)
qed

theorem indexOf_correct_witness:
  "class_invariant ([((1, 2), PositiveZero), ((6, 7), PositiveZero)] :: SortedRangeSet) \<and>
   length ([((1, 2), PositiveZero), ((6, 7), PositiveZero)] :: SortedRangeSet) < 2 ^ 31 \<and>
   SortedRangeMap_indexOf ([((1, 2), PositiveZero), ((6, 7), PositiveZero)] :: SortedRangeSet) 8
     = Inr (- 3) \<and>
   SortedRangeMap_indexOf ([((1, 2), PositiveZero), ((6, 7), PositiveZero)] :: SortedRangeSet) 6
     = Inr 1"
proof -
  let ?es = "[((1, 2), PositiveZero), ((6, 7), PositiveZero)] :: SortedRangeSet"
  have inv: "class_invariant ?es"
    by (simp add: linked_def mergeable_def range_start_def range_end_def)
  have len: "length ?es < 2 ^ 31" by simp
  have c8: "\<not> (\<exists>entry \<in> set ?es. covers 8 entry)"
    by (simp add: covers_def range_start_def range_end_def)
  have c6: "\<exists>entry \<in> set ?es. covers 6 entry"
    by (simp add: covers_def range_start_def range_end_def)
  from indexOf_correct [OF inv len, of 8 "[]"] c8
  obtain i where i: "SortedRangeMap_indexOf ?es 8 = Inr (bitNot (int i))"
    "bitNot (int i) = - (int i + 1)" "i \<le> length ?es"
    "\<forall>j. j < i \<longrightarrow> range_end (?es ! j) < 8"
    "\<forall>j. i \<le> j \<and> j < length ?es \<longrightarrow> 8 < range_start (?es ! j)"
    by auto
  have "i = 2"
  proof (rule ccontr)
    assume "i \<noteq> 2"
    with i(3) have "i \<le> 1" by simp
    with i(5) have "8 < range_start (?es ! 1)" by (elim allE [of _ 1]) simp
    then show False by (simp add: range_start_def)
  qed
  with i have r8: "SortedRangeMap_indexOf ?es 8 = Inr (- 3)" by simp
  from indexOf_correct [OF inv len, of 6 "[]"] c6
  obtain k where k: "SortedRangeMap_indexOf ?es 6 = Inr (int k)" "k < length ?es"
    "covers 6 (?es ! k)" by auto
  have "k = 1"
  proof (rule ccontr)
    assume "k \<noteq> 1"
    with k(2) have "k = 0" by simp
    with k(3) show False by (simp add: covers_def range_start_def range_end_def)
  qed
  with k have r6: "SortedRangeMap_indexOf ?es 6 = Inr 1" by simp
  show ?thesis using inv len r8 r6 by blast
qed

section \<open>Deleting a range\<close>

lemma entry_at_nth: "i < length xs \<Longrightarrow> entry_at xs (int i) = Some (xs ! i)"
  by (simp add: entry_at_def)

lemma splice_remove: "i < length xs \<Longrightarrow> array_splice xs (int i) 1 [] = take i xs @ drop (Suc i) xs"
  by (simp add: array_splice_def Let_def min_def max_def nat_add_distrib)

lemma splice_insert:
  "i \<le> length xs \<Longrightarrow> array_splice xs (int i) 0 items = take i xs @ items @ drop i xs"
  by (simp add: array_splice_def Let_def min_def max_def)

lemma splice_nothing: "dc \<le> 0 \<Longrightarrow> 0 \<le> st \<Longrightarrow> array_splice xs st dc [] = xs"
  by (simp add: array_splice_def Let_def min_def max_def)

lemma splice_between:
  "i \<le> j \<Longrightarrow> j \<le> length xs \<Longrightarrow> array_splice xs (int i) (int j - int i) [] = take i xs @ drop j xs"
  by (simp add: array_splice_def Let_def min_def max_def)

lemma deleteFromSingleRange_eq:
  assumes "l < length es"
  shows "SortedRangeMap_deleteFromSingleRange es (int l) r =
           (Inr (), take l es @ left_piece r (es ! l) @ right_piece r (es ! l) @ drop (Suc l) es)"
proof -
  obtain ds de where r: "r = (ds, de)" by (cases r)
  obtain ts te v where e: "es ! l = ((ts, te), v)" by (metis prod.exhaust)
  have upd: "\<And>y. es[l := y] = take l es @ y # drop (Suc l) es"
    using assms by (simp add: upd_conv_take_nth_drop)
  have sp: "array_splice es (int l) 1 [] = take l es @ drop (Suc l) es"
    using assms by (rule splice_remove)
  have ins: "\<And>y z. array_splice (es[l := y]) (int l + 1) 0 [z] = take l es @ y # z # drop (Suc l) es"
  proof -
    fix y z
    have "array_splice (es[l := y]) (int (Suc l)) 0 [z] =
            take (Suc l) (es[l := y]) @ [z] @ drop (Suc l) (es[l := y])"
      using assms by (intro splice_insert) simp
    also have "\<dots> = take l es @ y # z # drop (Suc l) es"
      using assms by (simp add: take_Suc_conv_app_nth)
    finally show "array_splice (es[l := y]) (int l + 1) 0 [z] = take l es @ y # z # drop (Suc l) es"
      by (simp add: add.commute)
  qed
  show ?thesis
    using assms
    by (simp add: SortedRangeMap_deleteFromSingleRange_def r e entry_at_nth left_piece_def
        right_piece_def range_start_def range_end_def sp ins Let_def)
      (auto simp: upd)
qed

lemma private_delete_eq:
  assumes inv: "class_invariant es" and len: "length es < 2 ^ 31" and le: "ds \<le> de"
  shows "(SortedRangeMap_private_delete es (ds, de) = (Inr False, es) \<and>
            (\<forall>e \<in> set es. range_end e < ds \<or> de < range_start e))
       \<or> (\<exists>f l. SortedRangeMap_private_delete es (ds, de) =
               (Inr True, take f es @ left_piece (ds, de) (es ! f) @
                          right_piece (ds, de) (es ! l) @ drop (Suc l) es) \<and>
              f \<le> l \<and> l < length es \<and>
              (\<forall>j. j < f \<longrightarrow> range_end (es ! j) < ds) \<and> ds \<le> range_end (es ! f) \<and>
              range_start (es ! l) \<le> de \<and>
              (\<forall>j. l < j \<and> j < length es \<longrightarrow> de < range_start (es ! j)))"
proof -
  from indicesOf_spec [OF inv len le]
  show ?thesis
  proof (elim disjE exE conjE)
    assume "SortedRangeMap_indicesOf es (ds, de) = Inr None"
      "\<forall>e \<in> set es. range_end e < ds \<or> de < range_start e"
    then show ?thesis by (simp add: SortedRangeMap_private_delete_def)
  next
    fix f l
    assume io: "SortedRangeMap_indicesOf es (ds, de) = Inr (Some (int f, int l))"
      and fl: "f \<le> l" and l: "l < length es"
      and A: "\<forall>j. j < f \<longrightarrow> range_end (es ! j) < ds" and F: "ds \<le> range_end (es ! f)"
      and L: "range_start (es ! l) \<le> de"
      and B: "\<forall>j. l < j \<and> j < length es \<longrightarrow> de < range_start (es ! j)"
    let ?r = "(ds, de)"
    let ?es1 = "take l es @ left_piece ?r (es ! l) @ right_piece ?r (es ! l) @ drop (Suc l) es"
    have d1: "SortedRangeMap_deleteFromSingleRange es (int l) ?r = (Inr (), ?es1)"
      by (rule deleteFromSingleRange_eq [OF l])
    have "SortedRangeMap_private_delete es ?r =
            (Inr True, take f es @ left_piece ?r (es ! f) @ right_piece ?r (es ! l) @
                       drop (Suc l) es)"
    proof (cases "f = l")
      case True
      have "array_splice ?es1 (int f + 1) (int l - (int f + 1)) [] = ?es1"
        using True by (intro splice_nothing) simp_all
      then show ?thesis
        using True io d1 by (simp add: SortedRangeMap_private_delete_def Let_def)
    next
      case False
      with fl have lt: "f < l" by simp
      have "range_end (es ! f) < range_start (es ! l)" by (rule inv_sorted [OF inv lt l])
      with F L have nl: "left_piece ?r (es ! l) = []" and nr: "right_piece ?r (es ! f) = []"
        by (simp_all add: left_piece_def right_piece_def)
      let ?es2 = "take (Suc f) es @ right_piece ?r (es ! l) @ drop (Suc l) es"
      have "array_splice ?es1 (int (Suc f)) (int l - int (Suc f)) [] = take (Suc f) ?es1 @ drop l ?es1"
        using lt l by (intro splice_between) simp_all
      also have "\<dots> = ?es2" using lt l nl by (simp add: min_def)
      finally have sp: "array_splice ?es1 (int f + 1) (int l - (int f + 1)) [] = ?es2"
        by (simp add: add.commute)
      have f2: "f < length ?es2" using lt l by simp
      have nth2: "?es2 ! f = es ! f" using lt l by (simp add: nth_append)
      have d2: "SortedRangeMap_deleteFromSingleRange ?es2 (int f) ?r =
                  (Inr (), take f es @ left_piece ?r (es ! f) @ right_piece ?r (es ! l) @
                           drop (Suc l) es)"
        unfolding deleteFromSingleRange_eq [OF f2] nth2 using lt l nr
        by (simp add: min_def)
      show ?thesis
        using False io d1 sp d2 by (simp add: SortedRangeMap_private_delete_def Let_def)
    qed
    with fl l A F L B show ?thesis by blast
  qed
qed

lemma set_take_nth: "e \<in> set (take f es) \<Longrightarrow> \<exists>j. j < f \<and> j < length es \<and> e = es ! j"
  by (auto simp: in_set_conv_nth)

lemma set_drop_nth: "e \<in> set (drop k es) \<Longrightarrow> \<exists>j. k \<le> j \<and> j < length es \<and> e = es ! j"
proof -
  assume "e \<in> set (drop k es)"
  then obtain i where i: "i < length (drop k es)" "e = drop k es ! i"
    by (auto simp: in_set_conv_nth)
  then have "k \<le> k + i" "k + i < length es" "e = es ! (k + i)" by simp_all
  then show ?thesis by blast
qed

lemma concat_map_self: "(\<And>x. x \<in> set xs \<Longrightarrow> g x = [x]) \<Longrightarrow> concat (map g xs) = xs"
  by (induction xs) auto

lemma concat_map_empty: "(\<And>x. x \<in> set xs \<Longrightarrow> g x = []) \<Longrightarrow> concat (map g xs) = []"
  by (induction xs) auto

lemma delete_closed_concat:
  assumes inv: "class_invariant es" and fl: "f \<le> l" and l: "l < length es"
    and A: "\<forall>j. j < f \<longrightarrow> range_end (es ! j) < ds" and F: "ds \<le> range_end (es ! f)"
    and L: "range_start (es ! l) \<le> de"
    and B: "\<forall>j. l < j \<and> j < length es \<longrightarrow> de < range_start (es ! j)"
  shows "take f es @ left_piece (ds, de) (es ! f) @ right_piece (ds, de) (es ! l) @
           drop (Suc l) es = concat (map (entry_without (ds, de)) es)"
proof -
  let ?r = "(ds, de)"
  let ?D = "\<lambda>xs. concat (map (entry_without ?r) xs)"
  have DA: "?D (take f es) = take f es"
  proof (rule concat_map_self)
    fix e assume "e \<in> set (take f es)"
    from set_take_nth [OF this] obtain j where "j < f" "e = es ! j" by blast
    with A show "entry_without ?r e = [e]" by (simp add: entry_without_def)
  qed
  have DB: "?D (drop (Suc l) es) = drop (Suc l) es"
  proof (rule concat_map_self)
    fix e assume "e \<in> set (drop (Suc l) es)"
    from set_drop_nth [OF this] obtain j where "Suc l \<le> j" "j < length es" "e = es ! j"
      by blast
    with B show "entry_without ?r e = [e]" by (simp add: entry_without_def)
  qed
  show ?thesis
  proof (cases "f = l")
    case True
    have dec: "es = take f es @ es ! f # drop (Suc f) es"
      using l True by (intro id_take_nth_drop) simp
    have "?D es = ?D (take f es @ es ! f # drop (Suc f) es)"
      by (rule arg_cong [OF dec])
    also have "\<dots> = ?D (take f es) @ entry_without ?r (es ! f) @ ?D (drop (Suc f) es)"
      by simp
    finally have "?D es = ?D (take f es) @ entry_without ?r (es ! f) @ ?D (drop (Suc f) es)" .
    moreover have "entry_without ?r (es ! f) = left_piece ?r (es ! f) @ right_piece ?r (es ! f)"
      using F L True by (simp add: entry_without_def)
    ultimately show ?thesis using DA DB True by simp
  next
    case False
    with fl have lt: "f < l" by simp
    have fe: "range_end (es ! f) < range_start (es ! l)" by (rule inv_sorted [OF inv lt l])
    let ?mid = "take (l - Suc f) (drop (Suc f) es)"
    have "take l es = take f (take l es) @ take l es ! f # drop (Suc f) (take l es)"
      using lt l by (intro id_take_nth_drop) simp
    also have "take f (take l es) = take f es" using lt by (simp add: min_def)
    also have "take l es ! f = es ! f" using lt by simp
    also have "drop (Suc f) (take l es) = ?mid" by (rule drop_take)
    finally have tl: "take l es = take f es @ es ! f # ?mid" .
    have e1: "es = take l es @ es ! l # drop (Suc l) es" using l by (rule id_take_nth_drop)
    have dec: "es = take f es @ es ! f # ?mid @ es ! l # drop (Suc l) es"
      by (rule trans [OF e1]) (simp only: tl append_assoc append_Cons)
    have Dmid: "?D ?mid = []"
    proof (rule concat_map_empty)
      fix e assume "e \<in> set ?mid"
      then have "e \<in> set (drop (Suc f) (take l es))" by (simp only: drop_take)
      from set_drop_nth [OF this]
      obtain j where j: "Suc f \<le> j" "j < length (take l es)" "e = take l es ! j"
        by blast
      then have jl: "f < j" "j < l" "e = es ! j" by simp_all
      have "range_end (es ! f) < range_start (es ! j)"
        using inv_sorted [OF inv jl(1)] jl(2) l by simp
      moreover have "range_end (es ! j) < range_start (es ! l)"
        by (rule inv_sorted [OF inv jl(2) l])
      moreover have "range_start (es ! j) \<le> range_end (es ! j)"
        using inv_valid_nth [OF inv, of j] jl(2) l by simp
      ultimately show "entry_without ?r e = []"
        using F L jl(3) by (simp add: entry_without_def left_piece_def right_piece_def)
    qed
    have vf: "range_start (es ! f) \<le> range_end (es ! f)"
      using inv_valid_nth [OF inv, of f] lt l by simp
    have vl: "range_start (es ! l) \<le> range_end (es ! l)"
      by (rule inv_valid_nth [OF inv l])
    have Df: "entry_without ?r (es ! f) = left_piece ?r (es ! f)"
      using F L fe vf vl
      by (simp add: entry_without_def right_piece_def)
    have Dl: "entry_without ?r (es ! l) = right_piece ?r (es ! l)"
      using F L fe vf vl
      by (simp add: entry_without_def left_piece_def)
    have "?D es = ?D (take f es @ es ! f # ?mid @ es ! l # drop (Suc l) es)"
      by (rule arg_cong [OF dec])
    also have "\<dots> = ?D (take f es) @ entry_without ?r (es ! f) @ ?D ?mid @
                     entry_without ?r (es ! l) @ ?D (drop (Suc l) es)"
      by simp
    finally show ?thesis using DA DB Dmid Df Dl by simp
  qed
qed

lemma inv_take: "class_invariant es \<Longrightarrow> class_invariant (take n es)"
  using inv_append [of "take n es" "drop n es"] by simp

lemma inv_drop: "class_invariant es \<Longrightarrow> class_invariant (drop n es)"
  using inv_append [of "take n es" "drop n es"] by simp

lemma inv_linked_nth:
  assumes "class_invariant es" "Suc i < length es"
  shows "linked (es ! i) (es ! Suc i)"
proof -
  have "class_invariant (take (Suc i) es @ drop (Suc i) es)" using assms(1) by simp
  moreover have "take (Suc i) es \<noteq> []" "drop (Suc i) es \<noteq> []" using assms(2) by auto
  moreover have "last (take (Suc i) es) = es ! i"
    using assms(2) by (simp add: take_Suc_conv_app_nth)
  moreover have "hd (drop (Suc i) es) = es ! Suc i"
    using assms(2) by (simp add: hd_drop_conv_nth)
  ultimately show ?thesis by (simp only: inv_append) simp
qed

lemma linked_same_start:
  "range_start b' = range_start b \<Longrightarrow> snd b' = snd b \<Longrightarrow> linked a b' = linked a b"
  by (simp add: linked_def mergeable_def)

lemma linked_same_end:
  "range_end a' = range_end a \<Longrightarrow> snd a' = snd a \<Longrightarrow> linked a' b = linked a b"
  by (simp add: linked_def mergeable_def)

lemma linked_equal_end:
  "range_end a' = range_end a \<Longrightarrow> strictEquals (snd a') (snd a) \<Longrightarrow> linked a' b = linked a b"
  by (simp add: linked_def mergeable_def strictEquals_left)

lemma linked_gap: "range_end a + 1 < range_start b \<Longrightarrow> linked a b"
  by (simp add: linked_def mergeable_def)

lemma inv_delete_closed:
  assumes inv: "class_invariant es" and fl: "f \<le> l" and l: "l < length es"
    and A: "\<forall>j. j < f \<longrightarrow> range_end (es ! j) < ds" and F: "ds \<le> range_end (es ! f)"
    and L: "range_start (es ! l) \<le> de"
    and B: "\<forall>j. l < j \<and> j < length es \<longrightarrow> de < range_start (es ! j)"
    and le: "ds \<le> de"
  shows "class_invariant (take f es @ left_piece (ds, de) (es ! f) @
           right_piece (ds, de) (es ! l) @ drop (Suc l) es)"
proof -
  let ?A = "take f es" and ?B = "drop (Suc l) es"
  let ?lp = "((range_start (es ! f), ds - 1), snd (es ! f))"
  let ?rp = "((de + 1, range_end (es ! l)), snd (es ! l))"
  have iA: "class_invariant ?A" and iB: "class_invariant ?B"
    using inv by (simp_all add: inv_take inv_drop)
  have lastA: "range_end (last ?A) < ds" "linked (last ?A) (es ! f)" if "?A \<noteq> []"
  proof -
    from that have f0: "0 < f" by simp
    have "take f es = take (Suc (f - 1)) es" using f0 by simp
    also have "\<dots> = take (f - 1) es @ [es ! (f - 1)]"
      using f0 fl l by (intro take_Suc_conv_app_nth) simp
    finally have la: "last ?A = es ! (f - 1)" by simp
    from A f0 show "range_end (last ?A) < ds" by (simp add: la)
    from inv_linked_nth [OF inv, of "f - 1"] f0 fl l show "linked (last ?A) (es ! f)"
      by (simp add: la)
  qed
  have hdB: "de < range_start (hd ?B)" "linked (es ! l) (hd ?B)" if "?B \<noteq> []"
  proof -
    from that have sl: "Suc l < length es" by simp
    then have hb: "hd ?B = es ! Suc l" by (simp add: hd_drop_conv_nth)
    from B sl show "de < range_start (hd ?B)" by (simp add: hb)
    from inv_linked_nth [OF inv sl] show "linked (es ! l) (hd ?B)" by (simp add: hb)
  qed
  have A_lp: "linked (last ?A) ?lp" if "?A \<noteq> []"
    using lastA(2) [OF that] linked_same_start [of ?lp "es ! f" "last ?A"]
    by (simp add: range_start_def)
  have A_rp: "linked (last ?A) ?rp" if "?A \<noteq> []"
    using lastA(1) [OF that] le by (intro linked_gap) (simp add: range_start_def)
  have A_B: "linked (last ?A) (hd ?B)" if "?A \<noteq> []" "?B \<noteq> []"
    using lastA(1) [OF that(1)] hdB(1) [OF that(2)] le by (intro linked_gap) simp
  have lp_rp: "linked ?lp ?rp"
    using le by (intro linked_gap) (simp add: range_start_def range_end_def)
  have lp_B: "linked ?lp (hd ?B)" if "?B \<noteq> []"
    using hdB(1) [OF that] le by (intro linked_gap) (simp add: range_end_def)
  have rp_B: "linked ?rp (hd ?B)" if "?B \<noteq> []"
    using hdB(2) [OF that] linked_same_end [of ?rp "es ! l" "hd ?B"]
    by (simp add: range_end_def)
  show ?thesis
    using iA iB A_lp A_rp A_B lp_rp lp_B rp_B
    by (auto simp: left_piece_def right_piece_def inv_append inv_Cons range_start_def
        range_end_def)
qed

lemma entry_of_append:
  "entry_of (xs @ ys) k = (case entry_of xs k of None \<Rightarrow> entry_of ys k | Some e \<Rightarrow> Some e)"
  unfolding entry_of_def by (induction xs) auto

lemma value_at_append:
  "value_at (xs @ ys) k = (case value_at xs k of None \<Rightarrow> value_at ys k | Some v \<Rightarrow> Some v)"
  by (simp add: value_at_def entry_of_append split: option.splits)

lemma value_at_Cons:
  "value_at (e # es) k = (if covers k e then Some (snd e) else value_at es k)"
  by (simp add: value_at_def entry_of_def)

lemma value_at_Nil: "value_at [] k = None"
  by (simp add: value_at_def entry_of_def)

lemma value_at_entry_without:
  "value_at (entry_without r e) k =
     (if in_range k r then None else if covers k e then Some (snd e) else None)"
  by (auto simp: entry_without_def left_piece_def right_piece_def value_at_Cons value_at_Nil
      in_range_def covers_def range_start_def range_end_def)

lemma value_at_without:
  "value_at (concat (map (entry_without r) es)) k =
     (if in_range k r then None else value_at es k)"
  by (induction es)
    (simp_all add: value_at_Nil value_at_append value_at_entry_without value_at_Cons)

lemma private_delete_result:
  assumes inv: "class_invariant es" and len: "length es < 2 ^ 31" and le: "ds \<le> de"
  shows "SortedRangeMap_private_delete es (ds, de) =
           (Inr (\<exists>e \<in> set es. intersects (ds, de) e), concat (map (entry_without (ds, de)) es))"
    and "class_invariant (concat (map (entry_without (ds, de)) es))"
    and "length (concat (map (entry_without (ds, de)) es)) \<le> Suc (length es)"
proof -
  let ?D = "concat (map (entry_without (ds, de)) es)"
  have "SortedRangeMap_private_delete es (ds, de) = (Inr (\<exists>e \<in> set es. intersects (ds, de) e), ?D)
      \<and> class_invariant ?D \<and> length ?D \<le> Suc (length es)"
    using private_delete_eq [OF inv len le]
  proof (elim disjE exE conjE)
    assume pd: "SortedRangeMap_private_delete es (ds, de) = (Inr False, es)"
      and no: "\<forall>e \<in> set es. range_end e < ds \<or> de < range_start e"
    have "?D = es" using no by (intro concat_map_self) (simp add: entry_without_def)
    moreover have "\<not> (\<exists>e \<in> set es. intersects (ds, de) e)"
      using no by (auto simp: intersects_def)
    ultimately show ?thesis using pd inv by simp
  next
    fix f l
    assume pd: "SortedRangeMap_private_delete es (ds, de) =
               (Inr True, take f es @ left_piece (ds, de) (es ! f) @
                          right_piece (ds, de) (es ! l) @ drop (Suc l) es)"
      and fl: "f \<le> l" and l: "l < length es"
      and A: "\<forall>j. j < f \<longrightarrow> range_end (es ! j) < ds" and F: "ds \<le> range_end (es ! f)"
      and L: "range_start (es ! l) \<le> de"
      and B: "\<forall>j. l < j \<and> j < length es \<longrightarrow> de < range_start (es ! j)"
    let ?C = "take f es @ left_piece (ds, de) (es ! f) @ right_piece (ds, de) (es ! l) @
              drop (Suc l) es"
    have eq: "?C = ?D" by (rule delete_closed_concat [OF inv fl l A F L B])
    have iC: "class_invariant ?C" by (rule inv_delete_closed [OF inv fl l A F L B le])
    have "length ?C \<le> Suc (length es)"
      using fl l by (auto simp add: left_piece_def right_piece_def)
    moreover have "\<exists>e \<in> set es. intersects (ds, de) e"
    proof (cases "f = l")
      case True
      with F L l show ?thesis unfolding intersects_def using nth_mem [OF l] by auto
    next
      case False
      with fl have "f < l" by simp
      from inv_sorted [OF inv this l] L have "range_start (es ! f) \<le> de"
        using inv_valid_nth [OF inv, of f] fl l by simp
      with F show ?thesis unfolding intersects_def using nth_mem [of f es] fl l by auto
    qed
    ultimately show ?thesis using pd iC eq by simp
  qed
  then show "SortedRangeMap_private_delete es (ds, de) =
           (Inr (\<exists>e \<in> set es. intersects (ds, de) e), concat (map (entry_without (ds, de)) es))"
    and "class_invariant (concat (map (entry_without (ds, de)) es))"
    and "length (concat (map (entry_without (ds, de)) es)) \<le> Suc (length es)"
    by simp_all
qed

section \<open>What delete and hasAny return\<close>

lemma assertRange_Inr:
  assumes "assertRange rng = Inr r"
  shows "fst r \<le> snd r"
    and "rng = (Finite (of_int (fst r)), Finite (of_int (snd r)))"
    and "- MAX_SAFE_INTEGER \<le> fst r" and "snd r \<le> MAX_SAFE_INTEGER"
proof -
  obtain a b where rng: "rng = (a, b)" by (cases rng)
  from assms rng have safe: "isSafeInteger a" "isSafeInteger b" and ngt: "\<not> number_gt a b"
    and r: "r = (integer_of a, integer_of b)"
    by (auto split: if_splits)
  from safe obtain p q where ab: "a = Finite p" "b = Finite q"
    by (cases a; cases b) simp_all
  from safe ab have pq: "of_int \<lfloor>p\<rfloor> = p" "of_int \<lfloor>q\<rfloor> = q" by simp_all
  from ngt ab have "p \<le> q" by simp
  then have "\<lfloor>p\<rfloor> \<le> \<lfloor>q\<rfloor>" by (rule floor_mono)
  then show "fst r \<le> snd r" using r ab by simp
  show "rng = (Finite (of_int (fst r)), Finite (of_int (snd r)))"
    unfolding rng r ab by (simp only: fst_conv snd_conv integer_of.simps pq)
  show "- MAX_SAFE_INTEGER \<le> fst r" "snd r \<le> MAX_SAFE_INTEGER"
    using safe ab r by simp_all
qed

lemma indicesOf_None_iff:
  assumes inv: "class_invariant es" and len: "length es < 2 ^ 31" and le: "ds \<le> de"
  shows "SortedRangeMap_indicesOf es (ds, de) =
           (if \<exists>e \<in> set es. intersects (ds, de) e
            then SortedRangeMap_indicesOf es (ds, de) else Inr None)"
    and "SortedRangeMap_indicesOf es (ds, de) = Inr None \<longleftrightarrow>
           \<not> (\<exists>e \<in> set es. intersects (ds, de) e)"
    and "\<exists>x. SortedRangeMap_indicesOf es (ds, de) = Inr x"
proof -
  have "(SortedRangeMap_indicesOf es (ds, de) = Inr None \<longleftrightarrow>
           \<not> (\<exists>e \<in> set es. intersects (ds, de) e))
      \<and> (\<exists>x. SortedRangeMap_indicesOf es (ds, de) = Inr x)"
    using indicesOf_spec [OF inv len le]
  proof (elim disjE exE conjE)
    assume "SortedRangeMap_indicesOf es (ds, de) = Inr None"
      "\<forall>e \<in> set es. range_end e < ds \<or> de < range_start e"
    then show ?thesis by (auto simp: intersects_def)
  next
    fix f l
    assume io: "SortedRangeMap_indicesOf es (ds, de) = Inr (Some (int f, int l))"
      and fl: "f \<le> l" and l: "l < length es"
      and F: "ds \<le> range_end (es ! f)" and L: "range_start (es ! l) \<le> de"
    have "\<exists>e \<in> set es. intersects (ds, de) e"
    proof (cases "f = l")
      case True
      with F L l show ?thesis unfolding intersects_def using nth_mem [OF l] by auto
    next
      case False
      with fl have "f < l" by simp
      from inv_sorted [OF inv this l] L have "range_start (es ! f) \<le> de"
        using inv_valid_nth [OF inv, of f] fl l by simp
      with F show ?thesis unfolding intersects_def using nth_mem [of f es] fl l by auto
    qed
    with io show ?thesis by simp
  qed
  then show "SortedRangeMap_indicesOf es (ds, de) =
           (if \<exists>e \<in> set es. intersects (ds, de) e
            then SortedRangeMap_indicesOf es (ds, de) else Inr None)"
    and "SortedRangeMap_indicesOf es (ds, de) = Inr None \<longleftrightarrow>
           \<not> (\<exists>e \<in> set es. intersects (ds, de) e)"
    and "\<exists>x. SortedRangeMap_indicesOf es (ds, de) = Inr x"
    by auto
qed

lemma hasAny_indicesOf:
  assumes "assertRange rng = Inr r" "SortedRangeMap_indicesOf es r = Inr x"
  shows "SortedRangeMap_hasAny es rng = Inr (x \<noteq> None)"
proof -
  obtain ds de where r: "r = (ds, de)" by (cases r)
  show ?thesis
    using assms(2) unfolding SortedRangeMap_hasAny_def SortedRangeMap_indicesOf_def assms(1) r
    by (auto split: sum.splits if_splits simp: Let_def)
qed

lemma hasAny_eq:
  assumes inv: "class_invariant es" and len: "length es < 2 ^ 31"
    and rng: "assertRange rng = Inr r"
  shows "SortedRangeMap_hasAny es rng = Inr (\<exists>e \<in> set es. intersects r e)"
proof -
  obtain ds de where r: "r = (ds, de)" by (cases r)
  have le: "ds \<le> de" using assertRange_Inr(1) [OF rng] r by simp
  from indicesOf_None_iff(3) [OF inv len le]
  obtain x where x: "SortedRangeMap_indicesOf es (ds, de) = Inr x" by blast
  with indicesOf_None_iff(2) [OF inv len le]
  have "x \<noteq> None \<longleftrightarrow> (\<exists>e \<in> set es. intersects (ds, de) e)" by simp
  with hasAny_indicesOf [OF rng x [folded r]] r show ?thesis by simp
qed

lemma intersects_iff_key:
  assumes "range_start e \<le> range_end e" "fst r \<le> snd r"
  shows "intersects r e \<longleftrightarrow> (\<exists>k. in_range k r \<and> covers k e)"
proof
  assume i: "intersects r e"
  show "\<exists>k. in_range k r \<and> covers k e"
    using assms i
    by (intro exI [of _ "max (fst r) (range_start e)"])
      (auto simp: in_range_def covers_def intersects_def)
next
  assume "\<exists>k. in_range k r \<and> covers k e"
  then show "intersects r e" by (auto simp: in_range_def covers_def intersects_def)
qed

lemma value_at_None_iff: "value_at es k = None \<longleftrightarrow> (\<forall>e \<in> set es. \<not> covers k e)"
  by (auto simp: value_at_def entry_of_def find_None_iff)

lemma intersects_iff_value:
  assumes inv: "class_invariant es" and le: "fst r \<le> snd r"
  shows "(\<exists>e \<in> set es. intersects r e) \<longleftrightarrow> (\<exists>k. in_range k r \<and> value_at es k \<noteq> None)"
proof -
  have "(\<exists>e \<in> set es. intersects r e) \<longleftrightarrow> (\<exists>e \<in> set es. \<exists>k. in_range k r \<and> covers k e)"
    using intersects_iff_key [OF inv_valid [OF inv] le] by blast
  then show ?thesis unfolding value_at_None_iff by blast
qed

lemma delete_eq:
  assumes inv: "class_invariant es" and len: "length es < 2 ^ 31"
    and rng: "assertRange rng = Inr r"
  shows "SortedRangeMap_delete es rng =
           (Inr (\<exists>e \<in> set es. intersects r e), concat (map (entry_without r) es))"
    and "class_invariant (concat (map (entry_without r) es))"
    and "length (concat (map (entry_without r) es)) \<le> Suc (length es)"
proof -
  obtain ds de where r: "r = (ds, de)" by (cases r)
  have le: "ds \<le> de" using assertRange_Inr(1) [OF rng] r by simp
  show "SortedRangeMap_delete es rng =
           (Inr (\<exists>e \<in> set es. intersects r e), concat (map (entry_without r) es))"
    unfolding SortedRangeMap_delete_def rng r
    by (simp add: private_delete_result(1) [OF inv len le])
  show "class_invariant (concat (map (entry_without r) es))"
    unfolding r by (rule private_delete_result(2) [OF inv len le])
  show "length (concat (map (entry_without r) es)) \<le> Suc (length es)"
    unfolding r by (rule private_delete_result(3) [OF inv len le])
qed

lemma without_unchanged:
  "\<not> (\<exists>e \<in> set es. intersects r e) \<Longrightarrow> concat (map (entry_without r) es) = es"
  by (intro concat_map_self) (auto simp: entry_without_def intersects_def)

text \<open>
  Claim C3. On a map that satisfies the class invariant, \<^verbatim>\<open>delete(r)\<close> with a valid range
  removes exactly the keys of \<open>r\<close>: afterwards no key of \<open>r\<close> has an association and every
  other key has the association it had; each entry is replaced by what is left of it once
  the range is taken out (nothing, the entry itself, one trimmed part or two parts). It
  returns whether the range intersected an entry, that is whether a key of the range was
  covered; when it returns false the entries are unchanged. Afterwards \<^verbatim>\<open>hasAny(r)\<close> is
  false. The operator \<^verbatim>\<open>~\<close> works on 32 bits, so the statement is for arrays that stay
  below \<open>2 ^ 31\<close> entries when the deletion splits an entry.
\<close>

theorem delete_correct:
  assumes "class_invariant entries" "Suc (length entries) < 2 ^ 31" "assertRange rng = Inr r"
  shows "\<exists>deleted entries'.
           SortedRangeMap_delete entries rng = (Inr deleted, entries') \<and>
           (\<forall>key. value_at entries' key =
                    (if in_range key r then None else value_at entries key)) \<and>
           entries' = concat (map (entry_without r) entries) \<and>
           (deleted \<longleftrightarrow> (\<exists>entry \<in> set entries. intersects r entry)) \<and>
           (deleted \<longleftrightarrow> (\<exists>key. in_range key r \<and> value_at entries key \<noteq> None)) \<and>
           (\<not> deleted \<longrightarrow> entries' = entries) \<and>
           SortedRangeMap_hasAny entries' rng = Inr False"
proof -
  let ?D = "concat (map (entry_without r) entries)"
  have len: "length entries < 2 ^ 31" using assms(2) by simp
  note d = delete_eq [OF assms(1) len assms(3)]
  have le: "fst r \<le> snd r" by (rule assertRange_Inr(1) [OF assms(3)])
  have v: "\<forall>key. value_at ?D key = (if in_range key r then None else value_at entries key)"
    by (simp add: value_at_without)
  have len': "length ?D < 2 ^ 31" using d(3) assms(2) by linarith
  have none: "\<not> (\<exists>e \<in> set ?D. intersects r e)"
    unfolding intersects_iff_value [OF d(2) le] using v by simp
  have h: "SortedRangeMap_hasAny ?D rng = Inr False"
    using hasAny_eq [OF d(2) len' assms(3)] none by simp
  show ?thesis
    using d(1) v h intersects_iff_value [OF assms(1) le] without_unchanged [of entries r]
    by (intro exI [of _ "\<exists>entry \<in> set entries. intersects r entry"] exI [of _ ?D]) simp
qed

theorem delete_correct_witness:
  "class_invariant [((1, 10), Other ''a'')] \<and> Suc (length [((1 :: int, 10 :: int), Other ''a'')]) < 2 ^ 31 \<and>
   assertRange (Finite 4, Finite 6) = Inr (4, 6) \<and>
   SortedRangeMap_delete [((1, 10), Other ''a'')] (Finite 4, Finite 6) =
     (Inr True, [((1, 3), Other ''a''), ((7, 10), Other ''a'')]) \<and>
   value_at [((1, 3), Other ''a''), ((7, 10), Other ''a'')] 5 = None \<and>
   value_at [((1, 3), Other ''a''), ((7, 10), Other ''a'')] 7 = value_at [((1, 10), Other ''a'')] 7 \<and>
   SortedRangeMap_hasAny [((1, 3), Other ''a''), ((7, 10), Other ''a'')] (Finite 4, Finite 6) = Inr False"
proof -
  let ?es = "[((1, 10), Other ''a'')] :: string Value SortedRangeMap"
  have inv: "class_invariant ?es" by (simp add: range_start_def range_end_def)
  have len: "Suc (length ?es) < 2 ^ 31" by simp
  have rng: "assertRange (Finite 4, Finite 6) = Inr (4, 6)"
    by (simp add: MAX_SAFE_INTEGER_def)
  have D: "concat (map (entry_without (4, 6)) ?es) = [((1, 3), Other ''a''), ((7, 10), Other ''a'')]"
    by (simp add: entry_without_def left_piece_def right_piece_def range_start_def
        range_end_def)
  have i5: "in_range 5 (4, 6)" and i7: "\<not> in_range 7 (4, 6)" by (simp_all add: in_range_def)
  from delete_correct [OF inv len rng]
  obtain deleted entries' where d:
    "SortedRangeMap_delete ?es (Finite 4, Finite 6) = (Inr deleted, entries')"
    "\<forall>key. value_at entries' key = (if in_range key (4, 6) then None else value_at ?es key)"
    "entries' = concat (map (entry_without (4, 6)) ?es)"
    "deleted \<longleftrightarrow> (\<exists>entry \<in> set ?es. intersects (4, 6) entry)"
    "SortedRangeMap_hasAny entries' (Finite 4, Finite 6) = Inr False"
    by blast
  have "deleted" using d(4) by (simp add: intersects_def range_start_def range_end_def)
  moreover have "entries' = [((1, 3), Other ''a''), ((7, 10), Other ''a'')]" using d(3) D by simp
  moreover have "value_at entries' 5 = None" using d(2) i5 by simp
  moreover have "value_at entries' 7 = value_at ?es 7" using d(2) i7 by simp
  ultimately show ?thesis using inv len rng d(1,5) by simp
qed

lemma intersects_cases:
  assumes inv: "class_invariant es" and le: "fst r \<le> snd r"
  shows "(\<exists>e \<in> set es. intersects r e) \<longleftrightarrow>
           value_at es (fst r) \<noteq> None \<or> value_at es (snd r) \<noteq> None \<or>
           (\<exists>e \<in> set es. fst r < range_start e \<and> range_end e < snd r)"
proof
  assume "\<exists>e \<in> set es. intersects r e"
  then obtain e where e: "e \<in> set es" "intersects r e" by blast
  have v: "range_start e \<le> range_end e" by (rule inv_valid [OF inv e(1)])
  consider "range_start e \<le> fst r" | "fst r < range_start e" "snd r \<le> range_end e"
    | "fst r < range_start e" "range_end e < snd r" by linarith
  then show "value_at es (fst r) \<noteq> None \<or> value_at es (snd r) \<noteq> None \<or>
           (\<exists>e \<in> set es. fst r < range_start e \<and> range_end e < snd r)"
  proof cases
    case 1
    with e have "covers (fst r) e" by (simp add: covers_def intersects_def)
    with e(1) show ?thesis unfolding value_at_None_iff by blast
  next
    case 2
    with e have "covers (snd r) e" by (simp add: covers_def intersects_def)
    with e(1) show ?thesis unfolding value_at_None_iff by blast
  next
    case 3
    with e(1) show ?thesis by blast
  qed
next
  assume "value_at es (fst r) \<noteq> None \<or> value_at es (snd r) \<noteq> None \<or>
           (\<exists>e \<in> set es. fst r < range_start e \<and> range_end e < snd r)"
  then show "\<exists>e \<in> set es. intersects r e"
  proof (elim disjE)
    assume "value_at es (fst r) \<noteq> None"
    then obtain e where e: "e \<in> set es" "covers (fst r) e"
      unfolding value_at_None_iff by blast
    then have "intersects r e" using le by (simp add: covers_def intersects_def)
    with e(1) show ?thesis by blast
  next
    assume "value_at es (snd r) \<noteq> None"
    then obtain e where e: "e \<in> set es" "covers (snd r) e"
      unfolding value_at_None_iff by blast
    then have "intersects r e" using le by (simp add: covers_def intersects_def)
    with e(1) show ?thesis by blast
  next
    assume "\<exists>e \<in> set es. fst r < range_start e \<and> range_end e < snd r"
    then obtain e where e: "e \<in> set es" "fst r < range_start e" "range_end e < snd r" by blast
    with inv_valid [OF inv e(1)] have "intersects r e" by (simp add: intersects_def)
    with e(1) show ?thesis by blast
  qed
qed

text \<open>
  Claim C7. On a map or set that satisfies the class invariant, \<^verbatim>\<open>hasAny(r)\<close> with a valid range
  returns true exactly when some key of \<open>r\<close> is covered, which is the case exactly when the start
  of \<open>r\<close> is covered, or its end is covered, or some entry lies strictly between them. The
  operator \<^verbatim>\<open>~\<close> works on 32 bits, so the statement is for arrays of fewer than \<open>2 ^ 31\<close>
  entries.
\<close>

theorem hasAny_correct:
  assumes "class_invariant entries" "length entries < 2 ^ 31" "assertRange rng = Inr r"
  shows "SortedRangeMap_hasAny entries rng =
           Inr (\<exists>key. in_range key r \<and> value_at entries key \<noteq> None) \<and>
         ((\<exists>key. in_range key r \<and> value_at entries key \<noteq> None) \<longleftrightarrow>
            value_at entries (fst r) \<noteq> None \<or> value_at entries (snd r) \<noteq> None \<or>
            (\<exists>entry \<in> set entries. fst r < range_start entry \<and> range_end entry < snd r)) \<and>
         SortedRangeSet_hasAny s rng = SortedRangeMap_hasAny s rng"
proof -
  have le: "fst r \<le> snd r" by (rule assertRange_Inr(1) [OF assms(3)])
  show ?thesis
    using hasAny_eq [OF assms] intersects_iff_value [OF assms(1) le]
      intersects_cases [OF assms(1) le]
    by (simp add: SortedRangeSet_hasAny_def)
qed

theorem hasAny_correct_witness:
  "class_invariant ([((5, 6), PositiveZero)] :: SortedRangeSet) \<and>
   length ([((5, 6), PositiveZero)] :: SortedRangeSet) < 2 ^ 31 \<and>
   assertRange (Finite 4, Finite 6) = Inr (4, 6) \<and>
   SortedRangeMap_hasAny ([((5, 6), PositiveZero)] :: SortedRangeSet) (Finite 4, Finite 6) = Inr True"
proof -
  let ?es = "[((5, 6), PositiveZero)] :: SortedRangeSet"
  have inv: "class_invariant ?es" by (simp add: range_start_def range_end_def)
  have len: "length ?es < 2 ^ 31" by simp
  have rng: "assertRange (Finite 4, Finite 6) = Inr (4, 6)"
    by (simp add: MAX_SAFE_INTEGER_def)
  have "in_range 5 (4, 6) \<and> value_at ?es 5 \<noteq> None"
    by (simp add: in_range_def value_at_Cons covers_def range_start_def range_end_def)
  then have "\<exists>key. in_range key (4, 6) \<and> value_at ?es key \<noteq> None" by blast
  with hasAny_correct [OF inv len rng, of "[]"] inv len rng show ?thesis by simp
qed

section \<open>Setting a range\<close>

lemma maybeMerge_zero: "SortedRangeMap_maybeMergeWithPreviousEntry es 0 = (Inr (), es)"
  by (simp add: SortedRangeMap_maybeMergeWithPreviousEntry_def)

lemma maybeMerge_pair:
  "SortedRangeMap_maybeMergeWithPreviousEntry (xs @ a # b # ys) (int (length xs) + 1) =
     (Inr (), xs @ join a b @ ys)"
proof -
  let ?es = "xs @ a # b # ys"
  let ?n = "length xs"
  obtain s e v where b: "b = ((s, e), v)" by (metis prod.exhaust)
  obtain ps pe pv where a: "a = ((ps, pe), pv)" by (metis prod.exhaust)
  have e1: "entry_at ?es (int ?n + 1) = Some b"
    using entry_at_nth [of "Suc ?n" ?es] by (simp add: nth_append add.commute)
  have e0: "entry_at ?es (int ?n + 1 - 1) = Some a"
    using entry_at_nth [of ?n ?es] by (simp add: nth_append)
  have sp: "array_splice ?es (int ?n + 1) 1 [] = xs @ a # ys"
    using splice_remove [of "Suc ?n" ?es] by (simp add: add.commute)
  have up: "(xs @ a # ys)[nat (int ?n + 1 - 1) := ((ps, e), pv)] = xs @ ((ps, e), pv) # ys"
    by simp
  have ne: "int ?n + 1 \<noteq> 0" by simp
  show ?thesis
  proof (cases "mergeable a b")
    case True
    then have m: "pe + 1 = s" "strictEquals pv v"
      by (simp_all add: mergeable_def a b range_start_def range_end_def)
    show ?thesis
      unfolding SortedRangeMap_maybeMergeWithPreviousEntry_def
      using e1 e0 sp up True m
      by (simp add: a b join_def merged_def range_start_def range_end_def)
  next
    case False
    then have m: "\<not> (pe + 1 = s \<and> strictEquals pv v)"
      by (simp add: mergeable_def a b range_start_def range_end_def)
    show ?thesis
      unfolding SortedRangeMap_maybeMergeWithPreviousEntry_def
      using e1 e0 False m
      by (simp add: a b join_def)
  qed
qed

lemma merge_next_nonempty: "merge_next new after \<noteq> []"
  by (simp add: merge_next_def join_def split: list.splits)

lemma merge_prev_Nil: "merge_prev [] xs = xs"
  by (simp add: merge_prev_def split: list.splits)

lemma set_eq:
  assumes inv: "class_invariant es" and len: "Suc (length es) < 2 ^ 31"
    and rng: "assertRange rng = Inr r"
  shows "\<exists>i. i \<le> length (concat (map (entry_without r) es)) \<and>
           (\<forall>j. j < i \<longrightarrow> range_end (concat (map (entry_without r) es) ! j) < fst r) \<and>
           (\<forall>j. i \<le> j \<and> j < length (concat (map (entry_without r) es)) \<longrightarrow>
                snd r < range_start (concat (map (entry_without r) es) ! j)) \<and>
           SortedRangeMap_set es rng v =
             (Inr (), merge_prev (take i (concat (map (entry_without r) es)))
                        (merge_next (r, v) (drop i (concat (map (entry_without r) es)))))"
proof -
  obtain ds de where r: "r = (ds, de)" by (cases r)
  have le: "ds \<le> de" using assertRange_Inr(1) [OF rng] r by simp
  have len0: "length es < 2 ^ 31" using len by simp
  define D where "D = concat (map (entry_without r) es)"
  have pd: "SortedRangeMap_private_delete es r = (Inr (\<exists>e \<in> set es. intersects r e), D)"
    and iD: "class_invariant D" and lD: "length D < 2 ^ 31"
    using private_delete_result [OF inv len0 le] len unfolding D_def r by simp_all
  have none: "value_at D k = None" if "in_range k r" for k
    using that by (simp add: D_def value_at_without)
  have nint: "\<not> intersects r e" if "e \<in> set D" for e
    using intersects_iff_value [OF iD, of r] none that le r by auto
  have nds: "\<not> covers ds e" if "e \<in> set D" for e
    using none [of ds] that le unfolding value_at_None_iff by (simp add: in_range_def r)
  from iD lD obtain i where i: "SortedRangeMap_indexOf D (fst r) = Inr (- int i - 1)"
      "i \<le> length D"
      "\<forall>j. j < i \<longrightarrow> range_end (D ! j) < ds"
      "\<forall>j. i \<le> j \<and> j < length D \<longrightarrow> ds < range_start (D ! j)"
  proof (cases rule: indexOf_cases [where key = ds])
    case (found j)
    with nds [of "D ! j"] show ?thesis by simp
  next
    case (absent j)
    then show ?thesis by (intro that [of j]) (simp_all add: r)
  qed
  have after: "\<forall>j. i \<le> j \<and> j < length D \<longrightarrow> de < range_start (D ! j)"
  proof (intro allI impI)
    fix j assume j: "i \<le> j \<and> j < length D"
    with i(4) have "ds < range_start (D ! j)" by blast
    moreover have "range_start (D ! j) \<le> range_end (D ! j)"
      using inv_valid_nth [OF iD] j by simp
    moreover have "\<not> intersects r (D ! j)" using nint j by simp
    ultimately show "de < range_start (D ! j)" by (simp add: intersects_def r)
  qed
  let ?P = "take i D" and ?S = "drop i D"
  let ?new = "(r, v)"
  have bn: "bitNot (- int i - 1) = int i" using i(2) lD by (simp add: bitNot_eq)
  have e2: "array_splice D (int i) 0 [?new] = ?P @ ?new # ?S"
    using splice_insert [OF i(2), of "[?new]"] by simp
  have lP: "length ?P = i" using i(2) by simp
  have m1: "(if int i + 1 < SortedRangeMap_size (?P @ ?new # ?S)
             then SortedRangeMap_maybeMergeWithPreviousEntry (?P @ ?new # ?S) (int i + 1)
             else (Inr (), ?P @ ?new # ?S)) = (Inr (), ?P @ merge_next ?new ?S)"
  proof (cases ?S)
    case Nil
    then have "i = length D" using i(2) by simp
    then show ?thesis using Nil by (simp add: SortedRangeMap_size_def merge_next_def)
  next
    case (Cons b S')
    then have "i < length D" using i(2) by (cases "i = length D") simp_all
    then have sz: "int i + 1 < SortedRangeMap_size (?P @ ?new # ?S)"
      by (simp add: SortedRangeMap_size_def)
    have "SortedRangeMap_maybeMergeWithPreviousEntry (?P @ ?new # b # S') (int (length ?P) + 1)
            = (Inr (), ?P @ join ?new b @ S')"
      by (rule maybeMerge_pair)
    then show ?thesis using sz Cons lP by (simp add: merge_next_def)
  qed
  have m2: "SortedRangeMap_maybeMergeWithPreviousEntry (?P @ merge_next ?new ?S) (int i) =
              (Inr (), merge_prev ?P (merge_next ?new ?S))"
  proof (cases "i = 0")
    case True
    then show ?thesis by (simp add: maybeMerge_zero merge_prev_Nil)
  next
    case False
    then have pne: "?P \<noteq> []" using i(2) by auto
    obtain n T where N: "merge_next ?new ?S = n # T"
      using merge_next_nonempty [of ?new ?S] by (cases "merge_next ?new ?S") simp_all
    have P: "?P = butlast ?P @ [last ?P]" using pne by simp
    have lb: "int (length (butlast ?P)) + 1 = int i" using False lP by simp
    have a: "SortedRangeMap_maybeMergeWithPreviousEntry (butlast ?P @ last ?P # n # T) (int i)
               = (Inr (), butlast ?P @ join (last ?P) n @ T)"
      using maybeMerge_pair [of "butlast ?P" "last ?P" n T] by (simp only: lb)
    have "?P @ n # T = (butlast ?P @ [last ?P]) @ n # T" by (simp only: P [symmetric])
    then have b: "?P @ merge_next ?new ?S = butlast ?P @ last ?P # n # T"
      by (simp only: N append_assoc append_Cons append_Nil)
    have c: "merge_prev ?P (n # T) = butlast ?P @ join (last ?P) n @ T"
      using pne by (simp add: merge_prev_def)
    show ?thesis by (simp only: b a) (simp only: N c)
  qed
  have "SortedRangeMap_set es rng v = (Inr (), merge_prev ?P (merge_next ?new ?S))"
    unfolding SortedRangeMap_set_def
    by (simp only: rng pd i(1) bn e2 Let_def m1 m2 sum.case prod.case)
  with i(2,3) after show ?thesis unfolding D_def r by (intro exI [of _ i]) simp
qed

lemma value_at_join:
  assumes "range_start a \<le> range_end a" "range_start b \<le> range_end b"
    and "strictEquals (snd a) (snd b) \<Longrightarrow> snd a = snd b"
  shows "value_at (join a b @ ys) k = value_at (a # b # ys) k"
  using assms
  by (auto simp: join_def value_at_Cons mergeable_def merged_def covers_def range_start_def
      range_end_def)

lemma strictEquals_not_zero:
  assumes "v \<noteq> PositiveZero" "v \<noteq> NegativeZero"
  shows "strictEquals v x \<Longrightarrow> v = x" and "strictEquals x v \<Longrightarrow> x = v"
  using assms by (auto simp: strictEquals_iff)

lemma merge_next_props:
  assumes iS: "class_invariant S" and S: "\<forall>e \<in> set S. de < range_start e" and le: "ds \<le> de"
  shows "class_invariant (merge_next ((ds, de), v) S)"
    and "\<exists>n T. merge_next ((ds, de), v) S = n # T \<and> range_start n = ds \<and> de \<le> range_end n \<and>
           snd n = v \<and> length T \<le> length S"
proof -
  let ?new = "((ds, de), v)"
  have vn: "range_start ?new \<le> range_end ?new" using le by (simp add: range_start_def range_end_def)
  show "class_invariant (merge_next ?new S)"
  proof (cases S)
    case Nil
    then show ?thesis using vn by (simp add: merge_next_def)
  next
    case (Cons b S')
    have vb: "range_start b \<le> range_end b" using inv_valid [OF iS, of b] Cons by simp
    have db: "de < range_start b" using S Cons by simp
    have iS': "class_invariant S'" using iS Cons by (simp add: inv_Cons)
    have lk: "linked b (hd S')" if "S' \<noteq> []" using iS Cons that by (simp add: inv_Cons)
    show ?thesis
    proof (cases "mergeable ?new b")
      case True
      have "linked (merged ?new b) (hd S')" if "S' \<noteq> []"
        using lk [OF that] linked_equal_end [of "merged ?new b" b "hd S'"] True
        by (simp add: merged_def mergeable_def range_end_def)
      moreover have "range_start (merged ?new b) \<le> range_end (merged ?new b)"
        using le db vb by (simp add: merged_def range_start_def range_end_def)
      ultimately show ?thesis using True iS' Cons
        by (simp add: merge_next_def join_def inv_Cons)
    next
      case False
      then have "linked ?new b" using db by (simp add: linked_def range_end_def)
      then show ?thesis using False iS vn Cons by (simp add: merge_next_def join_def inv_Cons)
    qed
  qed
  show "\<exists>n T. merge_next ?new S = n # T \<and> range_start n = ds \<and> de \<le> range_end n \<and>
           snd n = v \<and> length T \<le> length S"
  proof (cases S)
    case Nil
    then show ?thesis by (simp add: merge_next_def range_start_def range_end_def)
  next
    case (Cons b S')
    have vb: "range_start b \<le> range_end b" using inv_valid [OF iS, of b] Cons by simp
    have db: "de < range_start b" using S Cons by simp
    show ?thesis using Cons vb db
      by (simp add: merge_next_def join_def merged_def range_start_def range_end_def)
  qed
qed

lemma merge_next_value:
  assumes iS: "class_invariant S" and le: "ds \<le> de"
    and nz: "v \<noteq> PositiveZero" "v \<noteq> NegativeZero"
  shows "value_at (merge_next ((ds, de), v) S) k = value_at (((ds, de), v) # S) k"
proof (cases S)
  case Nil
  then show ?thesis by (simp add: merge_next_def)
next
  case (Cons b S')
  let ?new = "((ds, de), v)"
  have vn: "range_start ?new \<le> range_end ?new" using le by (simp add: range_start_def range_end_def)
  have vb: "range_start b \<le> range_end b" using inv_valid [OF iS, of b] Cons by simp
  have "snd ?new = snd b" if "strictEquals (snd ?new) (snd b)"
    using strictEquals_not_zero(1) [OF nz, of "snd b"] that by simp
  from value_at_join [OF vn vb this, of S' k] Cons show ?thesis by (simp add: merge_next_def)
qed

lemma merge_prev_props:
  assumes iP: "class_invariant P" and P: "\<forall>e \<in> set P. range_end e < range_start n"
    and iN: "class_invariant (n # T)"
  shows "class_invariant (merge_prev P (n # T))"
    and "\<exists>Q m. merge_prev P (n # T) = Q @ m # T \<and> range_start m \<le> range_start n \<and>
           range_end m = range_end n \<and> (snd m = snd n \<or> strictEquals (snd m) (snd n)) \<and>
           length Q \<le> length P"
proof -
  have vn: "range_start n \<le> range_end n" using iN by (simp add: inv_Cons)
  have iT: "class_invariant T" using iN by (simp add: inv_Cons)
  have lkT: "linked n (hd T)" if "T \<noteq> []" using iN that by (simp add: inv_Cons)
  show "class_invariant (merge_prev P (n # T))"
  proof (cases "P = []")
    case True
    then show ?thesis using iN by (simp add: merge_prev_def)
  next
    case False
    let ?p = "last P" and ?P' = "butlast P"
    have Pd: "P = ?P' @ [?p]" using False by simp
    have "class_invariant (?P' @ [?p])" using iP Pd by simp
    then have iP': "class_invariant ?P'" and vp: "range_start ?p \<le> range_end ?p"
      and lkP: "?P' \<noteq> [] \<longrightarrow> linked (last ?P') ?p"
      by (simp_all add: inv_append)
    have pn: "range_end ?p < range_start n" using P False by simp
    show ?thesis
    proof (cases "mergeable ?p n")
      case True
      let ?m = "merged ?p n"
      have "range_start ?m \<le> range_end ?m"
        using vp vn pn by (simp add: merged_def range_start_def range_end_def)
      moreover have "linked (last ?P') ?m" if "?P' \<noteq> []"
        using lkP that linked_same_start [of ?m ?p "last ?P'"]
        by (simp add: merged_def range_start_def)
      moreover have "linked ?m (hd T)" if "T \<noteq> []"
        using lkT [OF that] linked_equal_end [of ?m n "hd T"] True
        by (simp add: merged_def mergeable_def range_end_def)
      ultimately show ?thesis using True False iP' iT
        by (simp add: merge_prev_def join_def inv_append inv_Cons)
    next
      case nm: False
      have "linked ?p n" using nm pn by (simp add: linked_def)
      then show ?thesis using nm False iP' iN vp lkP
        by (simp add: merge_prev_def join_def inv_append inv_Cons)
    qed
  qed
  show "\<exists>Q m. merge_prev P (n # T) = Q @ m # T \<and> range_start m \<le> range_start n \<and>
           range_end m = range_end n \<and> (snd m = snd n \<or> strictEquals (snd m) (snd n)) \<and>
           length Q \<le> length P"
  proof (cases "P = []")
    case True
    then show ?thesis by (simp add: merge_prev_def)
  next
    case False
    have vp: "range_start (last P) \<le> range_end (last P)" using inv_valid [OF iP, of "last P"] False by simp
    have pn: "range_end (last P) < range_start n" using P False by simp
    show ?thesis
    proof (cases "mergeable (last P) n")
      case True
      have "merge_prev P (n # T) = butlast P @ merged (last P) n # T"
        using True False by (simp add: merge_prev_def join_def)
      moreover have "range_start (merged (last P) n) \<le> range_start n"
        using vp pn by (simp add: merged_def range_start_def)
      moreover have "range_end (merged (last P) n) = range_end n"
        by (simp add: merged_def range_end_def)
      moreover have "strictEquals (snd (merged (last P) n)) (snd n)"
        using True by (simp add: merged_def mergeable_def)
      ultimately show ?thesis by (intro exI [of _ "butlast P"] exI [of _ "merged (last P) n"]) simp
    next
      case nm: False
      have "merge_prev P (n # T) = P @ n # T"
        using nm False by (simp add: merge_prev_def join_def)
      then show ?thesis by (intro exI [of _ P] exI [of _ n]) simp
    qed
  qed
qed

lemma merge_prev_value:
  assumes iP: "class_invariant P" and iN: "class_invariant (n # T)"
    and nz: "snd n \<noteq> PositiveZero" "snd n \<noteq> NegativeZero"
  shows "value_at (merge_prev P (n # T)) k = value_at (P @ n # T) k"
proof (cases "P = []")
  case True
  then show ?thesis by (simp add: merge_prev_def)
next
  case False
  have vn: "range_start n \<le> range_end n" using iN by (simp add: inv_Cons)
  have vp: "range_start (last P) \<le> range_end (last P)" using inv_valid [OF iP, of "last P"] False by simp
  have "snd (last P) = snd n" if "strictEquals (snd (last P)) (snd n)"
    using strictEquals_not_zero(2) [OF nz that] .
  from value_at_join [OF vp vn this, of T k]
  have "value_at (butlast P @ join (last P) n @ T) k = value_at (butlast P @ last P # n # T) k"
    by (simp only: value_at_append [of "butlast P"])
  moreover have "butlast P @ last P # n # T = P @ n # T" using False by simp
  ultimately show ?thesis using False by (simp add: merge_prev_def)
qed

lemma entry_of_unique:
  assumes inv: "class_invariant es" and e: "e \<in> set es" "covers k e"
  shows "entry_of es k = Some e"
proof -
  from e(1) obtain i where i: "i < length es" "e = es ! i" by (auto simp: in_set_conv_nth)
  have "\<not> covers k (es ! j)" if "j < i" for j
    using covers_unique [OF inv _ i(1), of j k] that i e(2) by auto
  with i e(2) show ?thesis unfolding entry_of_def find_Some_iff by blast
qed

lemma entry_of_None_iff: "entry_of es k = None \<longleftrightarrow> (\<forall>e \<in> set es. \<not> covers k e)"
  by (auto simp: entry_of_def find_None_iff)

lemma cloneEntry_id: "cloneEntry e = e"
  by (simp add: cloneEntry_def cloneRange_def split: prod.splits)

lemma get_eq:
  assumes inv: "class_invariant es" and len: "length es < 2 ^ 31"
  shows "SortedRangeMap_get es k = Inr (entry_of es k)"
  using inv len
proof (cases rule: indexOf_cases [where key = k])
  case (found i)
  have "entry_of es k = Some (es ! i)"
    using entry_of_unique [OF inv nth_mem [OF found(2)] found(3)] .
  with found show ?thesis
    by (simp add: SortedRangeMap_get_def entry_at_nth cloneEntry_id)
next
  case (absent i)
  have "entry_of es k = None"
    unfolding entry_of_None_iff by (rule no_cover_if_absent [OF absent(3,4)])
  with absent show ?thesis by (simp add: SortedRangeMap_get_def)
qed

lemma set_result:
  assumes inv: "class_invariant es" and len: "Suc (length es) < 2 ^ 31"
    and rng: "assertRange rng = Inr r"
  shows "\<exists>es'. SortedRangeMap_set es rng v = (Inr (), es') \<and> class_invariant es' \<and>
           length es' \<le> length es + 2 \<and>
           (v \<noteq> PositiveZero \<and> v \<noteq> NegativeZero \<longrightarrow>
              (\<forall>k. value_at es' k = (if in_range k r then Some v else value_at es k)) \<and>
              (\<exists>m \<in> set es'. range_start m \<le> fst r \<and> snd r \<le> range_end m \<and> snd m = v))"
proof -
  obtain ds de where r: "r = (ds, de)" by (cases r)
  have le: "ds \<le> de" using assertRange_Inr(1) [OF rng] r by simp
  have len0: "length es < 2 ^ 31" using len by simp
  define D where "D = concat (map (entry_without r) es)"
  have iD: "class_invariant D" and lD: "length D \<le> Suc (length es)"
    using private_delete_result(2,3) [OF inv len0 le] unfolding D_def r by simp_all
  from set_eq [OF inv len rng, of v, folded D_def]
  obtain i where i: "i \<le> length D" "\<forall>j. j < i \<longrightarrow> range_end (D ! j) < ds"
    "\<forall>j. i \<le> j \<and> j < length D \<longrightarrow> de < range_start (D ! j)"
    and res: "SortedRangeMap_set es rng v =
               (Inr (), merge_prev (take i D) (merge_next (r, v) (drop i D)))"
    unfolding r by auto
  let ?P = "take i D" and ?S = "drop i D"
  have iP: "class_invariant ?P" and iS: "class_invariant ?S"
    using iD by (simp_all add: inv_take inv_drop)
  have P: "\<forall>e \<in> set ?P. range_end e < ds"
  proof
    fix e assume "e \<in> set ?P"
    from set_take_nth [OF this] i(2) show "range_end e < ds" by blast
  qed
  have S: "\<forall>e \<in> set ?S. de < range_start e"
  proof
    fix e assume "e \<in> set ?S"
    from set_drop_nth [OF this] i(3) show "de < range_start e" by blast
  qed
  note mn = merge_next_props [OF iS S le, of v]
  from mn(2) obtain n T where N: "merge_next ((ds, de), v) ?S = n # T" "range_start n = ds"
    "de \<le> range_end n" "snd n = v" "length T \<le> length ?S" by blast
  have Pn: "\<forall>e \<in> set ?P. range_end e < range_start n" using P N(2) by simp
  have iN: "class_invariant (n # T)" using mn(1) N(1) by simp
  note mp = merge_prev_props [OF iP Pn iN]
  let ?F = "merge_prev ?P (n # T)"
  from mp(2) obtain Q m where Q: "?F = Q @ m # T" "range_start m \<le> range_start n"
    "range_end m = range_end n" "snd m = snd n \<or> strictEquals (snd m) (snd n)"
    "length Q \<le> length ?P" by blast
  have lenF: "length ?F \<le> length es + 2"
    using Q(1,5) N(5) lD i(1) by simp
  have exact: "(\<forall>k. value_at ?F k = (if in_range k r then Some v else value_at es k)) \<and>
               (\<exists>m \<in> set ?F. range_start m \<le> fst r \<and> snd r \<le> range_end m \<and> snd m = v)"
    if nz: "v \<noteq> PositiveZero" "v \<noteq> NegativeZero"
  proof
    have nzn: "snd n \<noteq> PositiveZero" "snd n \<noteq> NegativeZero" using nz N(4) by simp_all
    show "\<forall>k. value_at ?F k = (if in_range k r then Some v else value_at es k)"
    proof
      fix k
      have noP: "value_at ?P k = None" if "in_range k r"
        unfolding value_at_None_iff using P that by (auto simp: covers_def in_range_def r)
      have "value_at ?F k = value_at (?P @ n # T) k"
        by (rule merge_prev_value [OF iP iN nzn])
      also have "\<dots> = (case value_at ?P k of None \<Rightarrow> value_at (((ds, de), v) # ?S) k
                          | Some x \<Rightarrow> Some x)"
        using merge_next_value [OF iS le nz, of k]
        by (simp add: value_at_append N(1) cong: option.case_cong)
      also have "\<dots> = (if in_range k r then Some v else value_at (?P @ ?S) k)"
      proof (cases "in_range k r")
        case True
        then have "covers k ((ds, de), v)"
          by (simp add: covers_def in_range_def r range_start_def range_end_def)
        then show ?thesis using True noP by (simp add: value_at_Cons)
      next
        case False
        then have "\<not> covers k ((ds, de), v)"
          by (simp add: covers_def in_range_def r range_start_def range_end_def)
        then have "value_at (((ds, de), v) # ?S) k = value_at ?S k" by (simp add: value_at_Cons)
        then show ?thesis using False
          by (simp only: value_at_append [of ?P ?S] if_False cong: option.case_cong)
      qed
      also have "\<dots> = (if in_range k r then Some v else value_at es k)"
        by (simp add: D_def value_at_without)
      finally show "value_at ?F k = (if in_range k r then Some v else value_at es k)" .
    qed
    have "snd m = v" using Q(4) N(4) strictEquals_not_zero(2) [OF nz, of "snd m"] by auto
    moreover have "m \<in> set ?F" using Q(1) by simp
    ultimately show "\<exists>m \<in> set ?F. range_start m \<le> fst r \<and> snd r \<le> range_end m \<and> snd m = v"
      using Q(2,3) N(2,3) by (intro bexI [of _ m]) (simp_all add: r)
  qed
  show ?thesis using res mp(1) lenF exact N(1) unfolding r
    by (intro exI [of _ ?F]) (simp only: fst_conv snd_conv, blast)
qed

text \<open>
  For a value other than the two zeros, \<^verbatim>\<open>set(r, v)\<close> does what its documentation says: it
  returns normally, afterwards \<^verbatim>\<open>get\<close> finds for every key of \<open>r\<close> an entry with value \<open>v\<close>
  whose range contains all of \<open>r\<close>, and for every other key the value it found before, or
  nothing as before.
\<close>

lemma set_exact_unless_zero:
  assumes "class_invariant entries" "length entries + 2 < 2 ^ 31" "assertRange rng = Inr r"
    and "v \<noteq> PositiveZero" "v \<noteq> NegativeZero"
  shows "\<exists>entries'.
           SortedRangeMap_set entries rng v = (Inr (), entries') \<and>
           (\<forall>key. in_range key r \<longrightarrow>
              value_at entries' key = Some v \<and>
              (\<exists>covering. SortedRangeMap_get entries' key = Inr (Some (covering, v)) \<and>
                 fst covering \<le> fst r \<and> snd r \<le> snd covering)) \<and>
           (\<forall>key. \<not> in_range key r \<longrightarrow>
              value_at entries' key = value_at entries key \<and>
              (\<exists>before after. SortedRangeMap_get entries key = Inr before \<and>
                 SortedRangeMap_get entries' key = Inr after \<and>
                 map_option snd after = map_option snd before))"
proof -
  have len0: "length entries < 2 ^ 31" and len1: "Suc (length entries) < 2 ^ 31"
    using assms(2) by simp_all
  from set_result [OF assms(1) len1 assms(3), of v] assms(4,5)
  obtain es' m where res: "SortedRangeMap_set entries rng v = (Inr (), es')"
    and inv': "class_invariant es'"
    and val: "\<forall>k. value_at es' k = (if in_range k r then Some v else value_at entries k)"
    and m: "m \<in> set es'" "range_start m \<le> fst r" "snd r \<le> range_end m" "snd m = v"
    and len': "length es' \<le> length entries + 2"
    by blast
  have l': "length es' < 2 ^ 31" using len' assms(2) by linarith
  have g': "SortedRangeMap_get es' k = Inr (entry_of es' k)" for k
    by (rule get_eq [OF inv' l'])
  have g: "SortedRangeMap_get entries k = Inr (entry_of entries k)" for k
    by (rule get_eq [OF assms(1) len0])
  have inside: "\<exists>covering. SortedRangeMap_get es' key = Inr (Some (covering, v)) \<and>
                 fst covering \<le> fst r \<and> snd r \<le> snd covering" if "in_range key r" for key
  proof -
    have "covers key m" using that m(2,3) by (simp add: covers_def in_range_def)
    from entry_of_unique [OF inv' m(1) this] have "entry_of es' key = Some (fst m, v)"
      using m(4) by (simp add: prod_eq_iff)
    with g' [of key] m(2,3) show ?thesis
      by (intro exI [of _ "fst m"]) (simp add: range_start_def range_end_def)
  qed
  have outside: "\<exists>before after. SortedRangeMap_get entries key = Inr before \<and>
                 SortedRangeMap_get es' key = Inr after \<and>
                 map_option snd after = map_option snd before" if "\<not> in_range key r" for key
    using g [of key] g' [of key] val that by (simp add: value_at_def)
  show ?thesis using res val inside outside by (intro exI [of _ es']) simp
qed

text \<open>
  Claim C2. \<^verbatim>\<open>set(r, v)\<close> is to associate every key of \<open>r\<close> with \<open>v\<close>, so that \<^verbatim>\<open>get\<close> returns an
  entry with value \<open>v\<close>, and to leave every key outside \<open>r\<close> with exactly the association it
  had. The code merges the new entry with a neighbour whose value is \<^verbatim>\<open>===\<close> to \<open>v\<close>, and the
  two zeros are \<^verbatim>\<open>===\<close> without being the same value. On the map \<^verbatim>\<open>[[1, 2], 0]\<close> the call
  \<^verbatim>\<open>set([3, 4], -0)\<close> leaves the single entry \<^verbatim>\<open>[[1, 4], 0]\<close>, and \<^verbatim>\<open>get(3)\<close> returns the value
  \<^verbatim>\<open>0\<close>, not the \<^verbatim>\<open>-0\<close> that was set. On the map \<^verbatim>\<open>[[3, 4], 0]\<close> the call \<^verbatim>\<open>set([1, 2], -0)\<close>
  leaves \<^verbatim>\<open>[[1, 4], -0]\<close>: the key 3, outside the range, had the value \<^verbatim>\<open>0\<close> and now has \<^verbatim>\<open>-0\<close>.
\<close>

theorem set_changes_sign_of_zero:
  "class_invariant ([((1, 2), PositiveZero)] :: unit Value SortedRangeMap) \<and>
   assertRange (Finite 3, Finite 4) = Inr (3, 4) \<and>
   in_range 3 (3, 4) \<and>
   SortedRangeMap_set ([((1, 2), PositiveZero)] :: unit Value SortedRangeMap)
     (Finite 3, Finite 4) NegativeZero = (Inr (), [((1, 4), PositiveZero)]) \<and>
   SortedRangeMap_get ([((1, 4), PositiveZero)] :: unit Value SortedRangeMap) 3
     = Inr (Some ((1, 4), PositiveZero)) \<and>
   value_at ([((1, 4), PositiveZero)] :: unit Value SortedRangeMap) 3
     \<noteq> Some NegativeZero \<and>
   class_invariant ([((3, 4), PositiveZero)] :: unit Value SortedRangeMap) \<and>
   assertRange (Finite 1, Finite 2) = Inr (1, 2) \<and>
   \<not> in_range 3 (1, 2) \<and>
   SortedRangeMap_set ([((3, 4), PositiveZero)] :: unit Value SortedRangeMap)
     (Finite 1, Finite 2) NegativeZero = (Inr (), [((1, 4), NegativeZero)]) \<and>
   SortedRangeMap_get ([((3, 4), PositiveZero)] :: unit Value SortedRangeMap) 3
     = Inr (Some ((3, 4), PositiveZero)) \<and>
   SortedRangeMap_get ([((1, 4), NegativeZero)] :: unit Value SortedRangeMap) 3
     = Inr (Some ((1, 4), NegativeZero)) \<and>
   value_at ([((1, 4), NegativeZero)] :: unit Value SortedRangeMap) 3
     \<noteq> value_at ([((3, 4), PositiveZero)] :: unit Value SortedRangeMap) 3"
  by code_simp

section \<open>Slicing\<close>

lemma those_map_Some: "those (map (\<lambda>i. Some (g i)) xs) = Some (map g xs)"
  by (induction xs) simp_all

lemma map_nth_segment:
  "f + n \<le> length xs \<Longrightarrow> map (\<lambda>i. xs ! (f + i)) [0..<n] = take n (drop f xs)"
  by (intro nth_equalityI) simp_all

lemma slice_copy:
  assumes "f \<le> l" "l < length es"
  shows "those (map (\<lambda>index. map_option cloneEntry (entry_at es (int f + int index)))
                  [0 ..< nat (int l - int f + 1)]) = Some (take (l - f + 1) (drop f es))"
proof -
  have n: "nat (int l - int f + 1) = l - f + 1" using assms(1) by simp
  have "map (\<lambda>index. map_option cloneEntry (entry_at es (int f + int index))) [0 ..< l - f + 1]
        = map (\<lambda>i. Some (es ! (f + i))) [0 ..< l - f + 1]"
  proof (rule map_cong [OF refl])
    fix i assume "i \<in> set [0 ..< l - f + 1]"
    then have "f + i < length es" using assms by auto
    then have "entry_at es (int (f + i)) = Some (es ! (f + i))" by (rule entry_at_nth)
    then show "map_option cloneEntry (entry_at es (int f + int i)) = Some (es ! (f + i))"
      by (simp add: cloneEntry_id)
  qed
  then show ?thesis
    using assms map_nth_segment [of f "l - f + 1" es]
    by (simp only: n those_map_Some)
qed

lemma filter_segment:
  assumes inv: "class_invariant es" and fl: "f \<le> l" and l: "l < length es"
    and A: "\<forall>j. j < f \<longrightarrow> range_end (es ! j) < ds" and F: "ds \<le> range_end (es ! f)"
    and L: "range_start (es ! l) \<le> de"
    and B: "\<forall>j. l < j \<and> j < length es \<longrightarrow> de < range_start (es ! j)"
  shows "filter (intersects (ds, de)) es = take (l - f + 1) (drop f es)"
proof -
  let ?M = "take (l - f + 1) (drop f es)"
  have "es = take f es @ drop f es" by simp
  also have "drop f es = ?M @ drop (l - f + 1) (drop f es)"
    by (rule append_take_drop_id [symmetric])
  also have "drop (l - f + 1) (drop f es) = drop (Suc l) es" using fl by (simp add: add.commute)
  finally have dec: "es = take f es @ ?M @ drop (Suc l) es" .
  have fA: "filter (intersects (ds, de)) (take f es) = []"
  proof (rule filter_False, rule ballI)
    fix e assume "e \<in> set (take f es)"
    from set_take_nth [OF this] A show "\<not> intersects (ds, de) e"
      by (auto simp: intersects_def)
  qed
  have fB: "filter (intersects (ds, de)) (drop (Suc l) es) = []"
  proof (rule filter_False, rule ballI)
    fix e assume "e \<in> set (drop (Suc l) es)"
    from set_drop_nth [OF this] obtain j where j: "Suc l \<le> j" "j < length es" "e = es ! j"
      by blast
    then have "l < j \<and> j < length es" by simp
    with B have "de < range_start (es ! j)" by blast
    with j(3) show "\<not> intersects (ds, de) e" by (simp add: intersects_def)
  qed
  have fM: "filter (intersects (ds, de)) ?M = ?M"
  proof (rule filter_True, rule ballI)
    fix e assume "e \<in> set ?M"
    moreover have "Suc l - f = l - f + 1" using fl by simp
    ultimately have "e \<in> set (drop f (take (Suc l) es))" by (simp only: drop_take)
    from set_drop_nth [OF this] obtain j where j: "f \<le> j" "j < Suc l" "e = es ! j"
      using l by auto
    have "ds \<le> range_end (es ! j)"
    proof (cases "j = f")
      case True
      with F show ?thesis by simp
    next
      case False
      with j have "f < j" "j < length es" using l by simp_all
      from inv_sorted [OF inv this] inv_valid_nth [OF inv this(2)] F show ?thesis by simp
    qed
    moreover have "range_start (es ! j) \<le> de"
    proof (cases "j = l")
      case True
      with L show ?thesis by simp
    next
      case False
      with j have jl: "j < l" by simp
      from inv_sorted [OF inv jl l] inv_valid_nth [OF inv, of j] jl l L show ?thesis by simp
    qed
    ultimately show "intersects (ds, de) e" using j(3) by (simp add: intersects_def)
  qed
  have "filter (intersects (ds, de)) es =
          filter (intersects (ds, de)) (take f es @ ?M @ drop (Suc l) es)"
    by (rule arg_cong [OF dec])
  then show ?thesis by (simp only: filter_append fA fB fM append_Nil append_Nil2)
qed

lemma slice_eq:
  assumes inv: "class_invariant es" and len: "length es < 2 ^ 31"
    and rng: "assertRange rng = Inr r"
  shows "SortedRangeMap_slice es rng = Inr (map (clamp r) (filter (intersects r) es))"
proof -
  obtain ds de where r: "r = (ds, de)" by (cases r)
  have le: "ds \<le> de" using assertRange_Inr(1) [OF rng] r by simp
  from indicesOf_spec [OF inv len le]
  show ?thesis
  proof (elim disjE exE conjE)
    assume io: "SortedRangeMap_indicesOf es (ds, de) = Inr None"
      and no: "\<forall>e \<in> set es. range_end e < ds \<or> de < range_start e"
    have "filter (intersects (ds, de)) es = []"
      using no by (intro filter_False) (auto simp: intersects_def)
    then show ?thesis using io by (simp add: SortedRangeMap_slice_def rng r)
  next
    fix f l
    assume io: "SortedRangeMap_indicesOf es (ds, de) = Inr (Some (int f, int l))"
      and fl: "f \<le> l" and l: "l < length es"
      and A: "\<forall>j. j < f \<longrightarrow> range_end (es ! j) < ds" and F: "ds \<le> range_end (es ! f)"
      and L: "range_start (es ! l) \<le> de"
      and B: "\<forall>j. l < j \<and> j < length es \<longrightarrow> de < range_start (es ! j)"
    define n where "n = l - f + 1"
    define M where "M = take n (drop f es)"
    have fM: "filter (intersects (ds, de)) es = M"
      unfolding M_def n_def by (rule filter_segment [OF inv fl l A F L B])
    have cp: "those (map (\<lambda>index. map_option cloneEntry (entry_at es (int f + int index)))
                  [0 ..< nat (int l - int f + 1)]) = Some M"
      unfolding M_def n_def by (rule slice_copy [OF fl l])
    have lM: "length M = n" "0 < n" using fl l by (simp_all add: M_def n_def)
    have nM: "M ! j = es ! (f + j)" if "j < n" for j
      using that fl l by (simp add: M_def n_def)
    obtain fs fe fv where M0: "M ! 0 = ((fs, fe), fv)" by (metis prod.exhaust)
    define M1 where "M1 = M[0 := ((max ds fs, fe), fv)]"
    obtain ls le' lv where M1n: "M1 ! (n - 1) = ((ls, le'), lv)" by (metis prod.exhaust)
    define R where "R = M1[length M1 - 1 := ((ls, min de le'), lv)]"
    have lM1: "length M1 = n" by (simp add: M1_def lM)
    have e0: "entry_at M 0 = Some ((fs, fe), fv)"
      using entry_at_nth [of 0 M] lM M0 by simp
    have e1: "array_at M1 (- 1) = Some ((ls, le'), lv)"
      using entry_at_nth [of "n - 1" M1] lM1 lM(2) M1n
      by (simp add: array_at_def of_nat_diff)
    have res: "SortedRangeMap_slice es rng = Inr R"
      unfolding SortedRangeMap_slice_def
      by (simp only: rng r io cp e0 e1 sum.case option.case prod.case Let_def
          M1_def [symmetric] R_def [symmetric])
    have "R = map (clamp (ds, de)) M"
    proof (rule nth_equalityI)
      show "length R = length (map (clamp (ds, de)) M)" by (simp add: R_def lM1 lM)
    next
      fix j assume "j < length R"
      then have j: "j < n" by (simp add: R_def lM1)
      have idx: "f + j \<le> l" "f + j < length es" using j l fl by (simp_all add: n_def)
      obtain s e v where ej: "es ! (f + j) = ((s, e), v)" by (metis prod.exhaust)
      have v: "s \<le> e" using inv_valid_nth [OF inv idx(2)] ej
        by (simp add: range_start_def range_end_def)
      have lo: "ds \<le> s" if "0 < j"
      proof -
        from that have "f < f + j" by simp
        from inv_sorted [OF inv this idx(2)] F ej show ?thesis by (simp add: range_start_def)
      qed
      have hi: "e \<le> de" if "j < n - 1"
      proof -
        from that have "f + j < l" by (simp add: n_def)
        from inv_sorted [OF inv this l] L ej show ?thesis by (simp add: range_end_def)
      qed
      have Mj: "M ! j = ((s, e), v)" using nM [OF j] ej by simp
      have "R ! j = ((max ds s, min de e), v)"
      proof (cases "j = 0")
        case j0: True
        show ?thesis
        proof (cases "j = n - 1")
          case True
          with j0 M0 Mj M1n show ?thesis by (simp add: R_def M1_def lM)
        next
          case False
          with j have "j < n - 1" by simp
          from hi [OF this] False j0 M0 Mj show ?thesis
            by (simp add: R_def M1_def lM min_def)
        qed
      next
        case j0: False
        then have "0 < j" by simp
        note lo = lo [OF this]
        show ?thesis
        proof (cases "j = n - 1")
          case True
          with j0 Mj M1n lo j show ?thesis by (simp add: R_def M1_def lM max_def)
        next
          case False
          with j have "j < n - 1" by simp
          from hi [OF this] lo False j0 Mj j show ?thesis
            by (simp add: R_def M1_def lM min_def max_def)
        qed
      qed
      then show "R ! j = map (clamp (ds, de)) M ! j"
        using j Mj by (simp add: lM clamp_def range_start_def range_end_def)
    qed
    with res fM show ?thesis by (simp add: r)
  qed
qed

lemma linked_trans:
  "linked a b \<Longrightarrow> linked b c \<Longrightarrow> range_start b \<le> range_end b \<Longrightarrow> linked a c"
  by (simp add: linked_def mergeable_def)

lemma inv_iff_sorted_wrt:
  "class_invariant es \<longleftrightarrow>
     (\<forall>e \<in> set es. range_start e \<le> range_end e) \<and> sorted_wrt linked es"
proof (induction es rule: class_invariant.induct)
  case 1
  show ?case by simp
next
  case (2 a)
  show ?case by simp
next
  case (3 a b rest)
  show ?case
  proof
    assume inv: "class_invariant (a # b # rest)"
    then have ab: "linked a b" and va: "range_start a \<le> range_end a"
      and ib: "class_invariant (b # rest)" by simp_all
    from ib 3 have vb: "\<forall>e \<in> set (b # rest). range_start e \<le> range_end e"
      and sb: "sorted_wrt linked (b # rest)" by simp_all
    have "linked a c" if "c \<in> set rest" for c
    proof -
      from sb that have "linked b c" by simp
      from linked_trans [OF ab this] vb show ?thesis by simp
    qed
    with ab va vb sb
    show "(\<forall>e \<in> set (a # b # rest). range_start e \<le> range_end e) \<and>
          sorted_wrt linked (a # b # rest)"
      by auto
  next
    assume "(\<forall>e \<in> set (a # b # rest). range_start e \<le> range_end e) \<and>
          sorted_wrt linked (a # b # rest)"
    with 3 show "class_invariant (a # b # rest)" by simp
  qed
qed

lemma linked_clamp:
  assumes "linked a b" "intersects r a" "intersects r b"
  shows "linked (clamp r a) (clamp r b)"
  using assms
  by (auto simp: linked_def mergeable_def clamp_def intersects_def range_start_def
      range_end_def)

lemma inv_slice:
  assumes inv: "class_invariant es" and le: "fst r \<le> snd r"
  shows "class_invariant (map (clamp r) (filter (intersects r) es))"
proof -
  from inv have v: "\<forall>e \<in> set es. range_start e \<le> range_end e" and s: "sorted_wrt linked es"
    by (simp_all add: inv_iff_sorted_wrt)
  have "sorted_wrt linked (filter (intersects r) es)" using s by (rule sorted_wrt_filter)
  then have "sorted_wrt (\<lambda>a b. linked (clamp r a) (clamp r b)) (filter (intersects r) es)"
    by (rule sorted_wrt_mono_rel [rotated]) (simp add: linked_clamp)
  then have "sorted_wrt linked (map (clamp r) (filter (intersects r) es))"
    by (simp add: sorted_wrt_map)
  moreover have "\<forall>e \<in> set (map (clamp r) (filter (intersects r) es)).
                   range_start e \<le> range_end e"
    using v le by (auto simp: clamp_def intersects_def range_start_def range_end_def)
  ultimately show ?thesis by (simp add: inv_iff_sorted_wrt)
qed

lemma value_at_slice:
  "value_at (map (clamp r) (filter (intersects r) es)) k =
     (if in_range k r then value_at es k else None)"
proof (induction es)
  case Nil
  show ?case by (simp add: value_at_Nil)
next
  case (Cons e es)
  show ?case
  proof (cases "intersects r e")
    case True
    have "covers k (clamp r e) \<longleftrightarrow> in_range k r \<and> covers k e"
      by (auto simp: covers_def clamp_def in_range_def range_start_def range_end_def)
    moreover have "snd (clamp r e) = snd e" by (simp add: clamp_def)
    ultimately show ?thesis using True Cons by (simp add: value_at_Cons)
  next
    case False
    then have "\<not> covers k e" if "in_range k r"
      using that by (auto simp: covers_def intersects_def in_range_def)
    with False Cons show ?thesis by (simp add: value_at_Cons)
  qed
qed

lemma clamp_inner:
  assumes inv: "class_invariant es" and j: "j < length (filter (intersects r) es)"
  shows "0 < j \<Longrightarrow> max (fst r) (range_start (filter (intersects r) es ! j)) =
                   range_start (filter (intersects r) es ! j)"
    and "j < length (filter (intersects r) es) - 1 \<Longrightarrow>
           min (snd r) (range_end (filter (intersects r) es ! j)) =
           range_end (filter (intersects r) es ! j)"
proof -
  let ?C = "filter (intersects r) es"
  from inv have "sorted_wrt linked es" by (simp add: inv_iff_sorted_wrt)
  then have s: "sorted_wrt linked ?C" by (rule sorted_wrt_filter)
  have int: "intersects r (?C ! i)" if "i < length ?C" for i
    using nth_mem [OF that] by simp
  show "max (fst r) (range_start (?C ! j)) = range_start (?C ! j)" if "0 < j"
  proof -
    from that j have "j - 1 < j" "j - 1 < length ?C" by simp_all
    with s j have "linked (?C ! (j - 1)) (?C ! j)" by (simp add: sorted_wrt_iff_nth_less)
    with int [OF \<open>j - 1 < length ?C\<close>] show ?thesis
      by (simp add: linked_def intersects_def)
  qed
  show "min (snd r) (range_end (?C ! j)) = range_end (?C ! j)" if "j < length ?C - 1"
  proof -
    from that have sj: "j < Suc j" "Suc j < length ?C" by simp_all
    with s have "linked (?C ! j) (?C ! Suc j)" by (simp add: sorted_wrt_iff_nth_less)
    with int [OF sj(2)] show ?thesis by (simp add: linked_def intersects_def)
  qed
qed

text \<open>
  Claim C8. On a map that satisfies the class invariant, \<^verbatim>\<open>slice(r)\<close> with a valid range returns
  a map that associates exactly the keys of \<open>r\<close> that the original associates, with the same
  values. Its entries are copies of the entries that intersect \<open>r\<close>, in order, with the same
  values and bounds, except that the start of the first is \<open>max(r.start, start)\<close> and the end
  of the last is \<open>min(r.end, end)\<close>; it is empty when no entry intersects \<open>r\<close>. The method only
  reads the entries of the map it is called on. The operator \<^verbatim>\<open>~\<close> works on 32 bits, so the
  statement is for arrays of fewer than \<open>2 ^ 31\<close> entries.
\<close>

theorem slice_correct:
  assumes "class_invariant entries" "length entries < 2 ^ 31" "assertRange rng = Inr r"
  shows "\<exists>sliced.
           SortedRangeMap_slice entries rng = Inr sliced \<and>
           (\<forall>key. value_at sliced key = (if in_range key r then value_at entries key else None)) \<and>
           length sliced = length (filter (intersects r) entries) \<and>
           (\<forall>j. j < length sliced \<longrightarrow>
              snd (sliced ! j) = snd (filter (intersects r) entries ! j) \<and>
              range_start (sliced ! j) =
                (if j = 0 then max (fst r) (range_start (filter (intersects r) entries ! j))
                 else range_start (filter (intersects r) entries ! j)) \<and>
              range_end (sliced ! j) =
                (if j = length sliced - 1
                 then min (snd r) (range_end (filter (intersects r) entries ! j))
                 else range_end (filter (intersects r) entries ! j))) \<and>
           ((\<forall>entry \<in> set entries. \<not> intersects r entry) \<longrightarrow> sliced = [])"
proof -
  let ?C = "filter (intersects r) entries"
  let ?R = "map (clamp r) ?C"
  have res: "SortedRangeMap_slice entries rng = Inr ?R" by (rule slice_eq [OF assms])
  have val: "\<forall>key. value_at ?R key = (if in_range key r then value_at entries key else None)"
    by (simp add: value_at_slice)
  have ent: "snd (?R ! j) = snd (?C ! j) \<and>
              range_start (?R ! j) =
                (if j = 0 then max (fst r) (range_start (?C ! j)) else range_start (?C ! j)) \<and>
              range_end (?R ! j) =
                (if j = length ?R - 1 then min (snd r) (range_end (?C ! j))
                 else range_end (?C ! j))" if "j < length ?R" for j
  proof -
    from that have j: "j < length ?C" by simp
    have c: "?R ! j = clamp r (?C ! j)" using j by simp
    have a: "snd (?R ! j) = snd (?C ! j)" by (simp add: c clamp_def)
    have b: "range_start (?R ! j) =
               (if j = 0 then max (fst r) (range_start (?C ! j)) else range_start (?C ! j))"
    proof (cases "j = 0")
      case True
      then show ?thesis using c by (simp add: clamp_def range_start_def)
    next
      case False
      then have "max (fst r) (range_start (?C ! j)) = range_start (?C ! j)"
        using clamp_inner(1) [OF assms(1) j] by simp
      with False show ?thesis by (simp add: c clamp_def range_start_def)
    qed
    have d: "range_end (?R ! j) =
               (if j = length ?R - 1 then min (snd r) (range_end (?C ! j))
                else range_end (?C ! j))"
    proof (cases "j = length ?R - 1")
      case True
      then show ?thesis using c by (simp add: clamp_def range_end_def)
    next
      case False
      with j have "j < length ?C - 1" by simp
      then have "min (snd r) (range_end (?C ! j)) = range_end (?C ! j)"
        by (rule clamp_inner(2) [OF assms(1) j])
      with False show ?thesis by (simp add: c clamp_def range_end_def)
    qed
    from a b d show ?thesis by blast
  qed
  have emp: "(\<forall>entry \<in> set entries. \<not> intersects r entry) \<longrightarrow> ?R = []"
    by (simp add: filter_empty_conv)
  show ?thesis
    using res val ent emp by (intro exI [of _ ?R]) simp
qed

theorem slice_correct_witness:
  "class_invariant [((1, 2), Other 42), ((6, 7), Other (3 :: nat))] \<and>
   length [((1 :: int, 2 :: int), Other (42 :: nat)), ((6, 7), Other 3)] < 2 ^ 31 \<and>
   assertRange (Finite 2, Finite 6) = Inr (2, 6) \<and>
   (\<exists>sliced. SortedRangeMap_slice [((1, 2), Other 42), ((6, 7), Other (3 :: nat))] (Finite 2, Finite 6) =
        Inr sliced \<and>
      value_at sliced 2 = Some (Other 42) \<and> value_at sliced 1 = None \<and> length sliced = 2)"
proof -
  let ?es = "[((1, 2), Other 42), ((6, 7), Other 3)] :: nat Value SortedRangeMap"
  have inv: "class_invariant ?es"
    by (simp add: linked_def mergeable_def range_start_def range_end_def)
  have len: "length ?es < 2 ^ 31" by simp
  have rng: "assertRange (Finite 2, Finite 6) = Inr (2, 6)"
    by (simp add: MAX_SAFE_INTEGER_def)
  have r: "in_range 2 (2, 6)" "\<not> in_range 1 (2, 6)" by (simp_all add: in_range_def)
  have v: "value_at ?es 2 = Some (Other 42)"
    by (simp add: value_at_Cons covers_def range_start_def range_end_def)
  have f: "length (filter (intersects (2, 6)) ?es) = 2"
    by (simp add: intersects_def range_start_def range_end_def)
  from slice_correct [OF inv len rng] obtain sliced where
    s: "SortedRangeMap_slice ?es (Finite 2, Finite 6) = Inr sliced"
    "\<forall>key. value_at sliced key = (if in_range key (2, 6) then value_at ?es key else None)"
    "length sliced = length (filter (intersects (2, 6)) ?es)"
    by blast
  have "value_at sliced 2 = Some (Other 42)" "value_at sliced 1 = None" "length sliced = 2"
    using s(2,3) r v f by simp_all
  with s(1) inv len rng show ?thesis by blast
qed

section \<open>Covering a whole range\<close>

lemma hasAll_loop_eq:
  "1 \<le> i \<Longrightarrow> l < length es \<Longrightarrow>
     SortedRangeMap_hasAll_loop es (int i) (int l) =
       Inr (\<forall>j. i \<le> j \<and> j \<le> l \<longrightarrow> range_end (es ! (j - 1)) + 1 = range_start (es ! j))"
proof (induction "Suc l - i" arbitrary: i)
  case 0
  then have "\<not> int i \<le> int l" by simp
  moreover have "\<forall>j. i \<le> j \<and> j \<le> l \<longrightarrow> range_end (es ! (j - 1)) + 1 = range_start (es ! j)"
    using 0 by simp
  ultimately show ?case by (subst SortedRangeMap_hasAll_loop.simps) simp
next
  case (Suc n)
  then have il: "i \<le> l" by simp
  have e0: "entry_at es (int i - 1) = Some (es ! (i - 1))"
    using entry_at_nth [of "i - 1" es] Suc.prems il by (simp add: of_nat_diff)
  have e1: "entry_at es (int i) = Some (es ! i)"
    using entry_at_nth [of i es] Suc.prems il by simp
  obtain ps pe pv where p: "es ! (i - 1) = ((ps, pe), pv)" by (metis prod.exhaust)
  obtain cs ce cv where c: "es ! i = ((cs, ce), cv)" by (metis prod.exhaust)
  show ?case
  proof (cases "pe + 1 = cs")
    case False
    then have "\<not> (range_end (es ! (i - 1)) + 1 = range_start (es ! i))"
      using p c by (simp add: range_start_def range_end_def)
    with il have "\<not> (\<forall>j. i \<le> j \<and> j \<le> l \<longrightarrow>
                       range_end (es ! (j - 1)) + 1 = range_start (es ! j))"
      by blast
    then show ?thesis
      using il e0 e1 p c False by (subst SortedRangeMap_hasAll_loop.simps) simp
  next
    case True
    have IH: "SortedRangeMap_hasAll_loop es (int (Suc i)) (int l) =
       Inr (\<forall>j. Suc i \<le> j \<and> j \<le> l \<longrightarrow> range_end (es ! (j - 1)) + 1 = range_start (es ! j))"
      using Suc by (intro Suc.hyps(1)) simp_all
    have here: "range_end (es ! (i - 1)) + 1 = range_start (es ! i)"
      using True p c by (simp add: range_start_def range_end_def)
    have "(\<forall>j. i \<le> j \<and> j \<le> l \<longrightarrow> range_end (es ! (j - 1)) + 1 = range_start (es ! j)) \<longleftrightarrow>
          (\<forall>j. Suc i \<le> j \<and> j \<le> l \<longrightarrow> range_end (es ! (j - 1)) + 1 = range_start (es ! j))"
      using here by (metis Suc_leI le_neq_implies_less Suc_leD)
    moreover have "SortedRangeMap_hasAll_loop es (int i) (int l) =
                     SortedRangeMap_hasAll_loop es (int i + 1) (int l)"
      using il e0 e1 p c True by (subst SortedRangeMap_hasAll_loop.simps) simp
    ultimately show ?thesis using IH by (simp add: add.commute)
  qed
qed

lemma chain_covers:
  assumes inv: "class_invariant es" and fl: "f \<le> l" and l: "l < length es"
    and cf: "covers ds (es ! f)" and cl: "covers de (es ! l)"
  shows "(\<forall>j. Suc f \<le> j \<and> j \<le> l \<longrightarrow> range_end (es ! (j - 1)) + 1 = range_start (es ! j)) \<longleftrightarrow>
         (\<forall>k. ds \<le> k \<and> k \<le> de \<longrightarrow> (\<exists>e \<in> set es. covers k e))"
proof
  assume chain: "\<forall>j. Suc f \<le> j \<and> j \<le> l \<longrightarrow>
                   range_end (es ! (j - 1)) + 1 = range_start (es ! j)"
  have upto: "\<forall>k. ds \<le> k \<and> k \<le> range_end (es ! j) \<longrightarrow> (\<exists>e \<in> set es. covers k e)"
    if "j \<le> l" for j
    using fl that
  proof (induction "j - f" arbitrary: j)
    case 0
    show ?case
    proof (cases "j \<le> f")
      case True
      show ?thesis
      proof (intro allI impI)
        fix k assume k: "ds \<le> k \<and> k \<le> range_end (es ! j)"
        have "range_end (es ! j) \<le> range_end (es ! f)"
        proof (cases "j = f")
          case True
          then show ?thesis by simp
        next
          case False
          with True have "j < f" by simp
          from inv_sorted [OF inv this] fl l inv_valid_nth [OF inv, of f]
          show ?thesis by simp
        qed
        with k cf have "covers k (es ! f)" by (simp add: covers_def)
        moreover have "es ! f \<in> set es" using fl l by simp
        ultimately show "\<exists>e \<in> set es. covers k e" by blast
      qed
    next
      case False
      with 0 show ?thesis by simp
    qed
  next
    case (Suc n)
    then have j: "Suc f \<le> j" "j \<le> l" "j - 1 \<le> l" "n = (j - 1) - f" by simp_all
    have IH: "\<forall>k. ds \<le> k \<and> k \<le> range_end (es ! (j - 1)) \<longrightarrow> (\<exists>e \<in> set es. covers k e)"
      by (rule Suc.hyps(1) [OF j(4) fl j(3)])
    from chain j have adj: "range_end (es ! (j - 1)) + 1 = range_start (es ! j)" by blast
    show ?case
    proof (intro allI impI)
      fix k assume k: "ds \<le> k \<and> k \<le> range_end (es ! j)"
      show "\<exists>e \<in> set es. covers k e"
      proof (cases "k \<le> range_end (es ! (j - 1))")
        case True
        with IH k show ?thesis by blast
      next
        case False
        with adj k have "covers k (es ! j)" by (simp add: covers_def)
        moreover have "es ! j \<in> set es" using j l by simp
        ultimately show ?thesis by blast
      qed
    qed
  qed
  show "\<forall>k. ds \<le> k \<and> k \<le> de \<longrightarrow> (\<exists>e \<in> set es. covers k e)"
    using upto [of l] cl by (simp add: covers_def)
next
  assume all: "\<forall>k. ds \<le> k \<and> k \<le> de \<longrightarrow> (\<exists>e \<in> set es. covers k e)"
  show "\<forall>j. Suc f \<le> j \<and> j \<le> l \<longrightarrow> range_end (es ! (j - 1)) + 1 = range_start (es ! j)"
  proof (intro allI impI, rule ccontr)
    fix j assume j: "Suc f \<le> j \<and> j \<le> l"
      and ne: "range_end (es ! (j - 1)) + 1 \<noteq> range_start (es ! j)"
    let ?k = "range_end (es ! (j - 1)) + 1"
    have jl: "j - 1 < j" "j < length es" using j l by simp_all
    from inv_sorted [OF inv jl] ne have gap: "?k < range_start (es ! j)" by simp
    have "ds \<le> range_end (es ! (j - 1))"
    proof (cases "j - 1 = f")
      case True
      with cf show ?thesis by (simp add: covers_def)
    next
      case False
      with j have "f < j - 1" "j - 1 < length es" using l by auto
      from inv_sorted [OF inv this] inv_valid_nth [OF inv this(2)] cf
      show ?thesis by (simp add: covers_def)
    qed
    moreover have "range_start (es ! j) \<le> de"
    proof (cases "j = l")
      case True
      with cl show ?thesis by (simp add: covers_def)
    next
      case False
      with j have "j < l" by simp
      from inv_sorted [OF inv this l] inv_valid_nth [OF inv jl(2)] cl
      show ?thesis by (simp add: covers_def)
    qed
    ultimately have "ds \<le> ?k \<and> ?k \<le> de" using gap by simp
    with all obtain e where e: "e \<in> set es" "covers ?k e" by blast
    then obtain i where i: "i < length es" "e = es ! i" by (auto simp: in_set_conv_nth)
    show False
    proof (cases "i < j")
      case True
      have "range_end (es ! i) \<le> range_end (es ! (j - 1))"
      proof (cases "i = j - 1")
        case True
        then show ?thesis by simp
      next
        case False
        with True have "i < j - 1" "j - 1 < length es" using jl by simp_all
        from inv_sorted [OF inv this] inv_valid_nth [OF inv this(2)] show ?thesis by simp
      qed
      with e(2) i(2) show False by (simp add: covers_def)
    next
      case False
      have "range_start (es ! j) \<le> range_start (es ! i)"
      proof (cases "i = j")
        case True
        then show ?thesis by simp
      next
        case ne2: False
        with False have "j < i" by simp
        from inv_sorted [OF inv this i(1)] inv_valid_nth [OF inv jl(2)] show ?thesis by simp
      qed
      with e(2) i(2) gap show False by (simp add: covers_def)
    qed
  qed
qed

lemma segment_intersects:
  assumes inv: "class_invariant es" and j: "f \<le> j" "j \<le> l" and l: "l < length es"
    and F: "ds \<le> range_end (es ! f)" and L: "range_start (es ! l) \<le> de"
  shows "intersects (ds, de) (es ! j)"
proof -
  have "ds \<le> range_end (es ! j)"
  proof (cases "j = f")
    case True
    with F show ?thesis by simp
  next
    case False
    with j have "f < j" "j < length es" using l by simp_all
    from inv_sorted [OF inv this] inv_valid_nth [OF inv this(2)] F show ?thesis by simp
  qed
  moreover have "range_start (es ! j) \<le> de"
  proof (cases "j = l")
    case True
    with L show ?thesis by simp
  next
    case False
    with j have jl: "j < l" by simp
    from inv_sorted [OF inv jl l] inv_valid_nth [OF inv, of j] jl l L show ?thesis by simp
  qed
  ultimately show ?thesis by (simp add: intersects_def)
qed

lemma covered_index:
  assumes "value_at es k \<noteq> None"
  obtains i where "i < length es" "covers k (es ! i)"
  using assms unfolding value_at_None_iff by (auto simp: in_set_conv_nth)

lemma index_order:
  assumes inv: "class_invariant es" and f: "f < length es" "covers ds (es ! f)"
    and l: "l < length es" "covers de (es ! l)" and le: "ds \<le> de"
  shows "f \<le> l"
proof (rule ccontr)
  assume "\<not> f \<le> l"
  then have "l < f" by simp
  from inv_sorted [OF inv this f(1)] f(2) l(2) le show False by (simp add: covers_def)
qed

lemma hasAll_eq:
  assumes inv: "class_invariant es" and len: "length es < 2 ^ 31"
    and rng: "assertRange rng = Inr r"
  shows "SortedRangeMap_hasAll es rng = Inr (\<forall>k. in_range k r \<longrightarrow> value_at es k \<noteq> None)"
proof -
  obtain ds de where r: "r = (ds, de)" by (cases r)
  have le: "ds \<le> de" using assertRange_Inr(1) [OF rng] r by simp
  have cov: "(\<forall>k. in_range k r \<longrightarrow> value_at es k \<noteq> None) \<longleftrightarrow>
             (\<forall>k. ds \<le> k \<and> k \<le> de \<longrightarrow> (\<exists>e \<in> set es. covers k e))"
    unfolding value_at_None_iff by (simp add: in_range_def r)
  from inv len show ?thesis
  proof (cases rule: indexOf_cases [where key = ds])
    case (absent i)
    have "\<not> (\<exists>e \<in> set es. covers ds e)"
      using no_cover_if_absent [OF absent(3,4)] by simp
    with le have "\<not> (\<forall>k. ds \<le> k \<and> k \<le> de \<longrightarrow> (\<exists>e \<in> set es. covers k e))" by auto
    with absent(1) show ?thesis
      unfolding cov by (simp add: SortedRangeMap_hasAll_def rng r)
  next
    case (found f)
    note f = found
    have loop: "SortedRangeMap_hasAll_loop es (int f + 1) (int l) =
                  Inr (\<forall>k. ds \<le> k \<and> k \<le> de \<longrightarrow> (\<exists>e \<in> set es. covers k e))"
      if l: "l < length es" "covers de (es ! l)" for l
    proof -
      have fl: "f \<le> l" by (rule index_order [OF inv f(2,3) l le])
      have "SortedRangeMap_hasAll_loop es (int (Suc f)) (int l) =
              Inr (\<forall>j. Suc f \<le> j \<and> j \<le> l \<longrightarrow>
                     range_end (es ! (j - 1)) + 1 = range_start (es ! j))"
        by (rule hasAll_loop_eq) (simp_all add: l)
      then show ?thesis
        unfolding chain_covers [OF inv fl l(1) f(3) l(2)] by (simp add: add.commute)
    qed
    show ?thesis
    proof (cases "ds = de")
      case True
      with f(3) have "covers de (es ! f)" by simp
      from loop [OF f(2) this] f(1) True show ?thesis
        unfolding cov by (simp add: SortedRangeMap_hasAll_def rng r)
    next
      case False
      from inv len show ?thesis
      proof (cases rule: indexOf_cases [where key = de])
        case (absent i)
        have "\<not> (\<exists>e \<in> set es. covers de e)"
          using no_cover_if_absent [OF absent(3,4)] by simp
        with le have "\<not> (\<forall>k. ds \<le> k \<and> k \<le> de \<longrightarrow> (\<exists>e \<in> set es. covers k e))" by auto
        with absent(1) f(1) False show ?thesis
          unfolding cov by (simp add: SortedRangeMap_hasAll_def rng r)
      next
        case (found l)
        from loop [OF found(2,3)] found(1) f(1) False show ?thesis
          unfolding cov by (simp add: SortedRangeMap_hasAll_def rng r)
      qed
    qed
  qed
qed

lemma covered_iff_no_gap:
  assumes inv: "class_invariant es" and le: "fst r \<le> snd r"
  shows "(\<forall>k. in_range k r \<longrightarrow> value_at es k \<noteq> None) \<longleftrightarrow>
           value_at es (fst r) \<noteq> None \<and> value_at es (snd r) \<noteq> None \<and>
           (\<forall>j. Suc j < length es \<and> intersects r (es ! j) \<and> intersects r (es ! Suc j) \<longrightarrow>
                range_end (es ! j) + 1 = range_start (es ! Suc j))"
proof
  assume all: "\<forall>k. in_range k r \<longrightarrow> value_at es k \<noteq> None"
  have "value_at es (fst r) \<noteq> None" "value_at es (snd r) \<noteq> None"
    using all le by (simp_all add: in_range_def)
  moreover have "range_end (es ! j) + 1 = range_start (es ! Suc j)"
    if j: "Suc j < length es" "intersects r (es ! j)" "intersects r (es ! Suc j)" for j
  proof (rule ccontr)
    assume ne: "range_end (es ! j) + 1 \<noteq> range_start (es ! Suc j)"
    let ?k = "range_end (es ! j) + 1"
    from inv_sorted [OF inv _ j(1), of j] ne have gap: "?k < range_start (es ! Suc j)" by simp
    with j(2,3) have "in_range ?k r" by (simp add: in_range_def intersects_def)
    with all have "value_at es ?k \<noteq> None" by blast
    then obtain i where i: "i < length es" "covers ?k (es ! i)" by (rule covered_index)
    show False
    proof (cases "i \<le> j")
      case True
      have "range_end (es ! i) \<le> range_end (es ! j)"
      proof (cases "i = j")
        case True
        then show ?thesis by simp
      next
        case False
        with True have "i < j" "j < length es" using j(1) by simp_all
        from inv_sorted [OF inv this] inv_valid_nth [OF inv this(2)] show ?thesis by simp
      qed
      with i(2) show False by (simp add: covers_def)
    next
      case False
      have "range_start (es ! Suc j) \<le> range_start (es ! i)"
      proof (cases "i = Suc j")
        case True
        then show ?thesis by simp
      next
        case ne2: False
        with False have "Suc j < i" by simp
        from inv_sorted [OF inv this i(1)] inv_valid_nth [OF inv j(1)] show ?thesis by simp
      qed
      with i(2) gap show False by (simp add: covers_def)
    qed
  qed
  ultimately show "value_at es (fst r) \<noteq> None \<and> value_at es (snd r) \<noteq> None \<and>
           (\<forall>j. Suc j < length es \<and> intersects r (es ! j) \<and> intersects r (es ! Suc j) \<longrightarrow>
                range_end (es ! j) + 1 = range_start (es ! Suc j))"
    by blast
next
  assume a: "value_at es (fst r) \<noteq> None \<and> value_at es (snd r) \<noteq> None \<and>
           (\<forall>j. Suc j < length es \<and> intersects r (es ! j) \<and> intersects r (es ! Suc j) \<longrightarrow>
                range_end (es ! j) + 1 = range_start (es ! Suc j))"
  from a obtain f where f: "f < length es" "covers (fst r) (es ! f)"
    using covered_index [of es "fst r"] by blast
  from a obtain l where l: "l < length es" "covers (snd r) (es ! l)"
    using covered_index [of es "snd r"] by blast
  have fl: "f \<le> l" by (rule index_order [OF inv f l le])
  have F: "fst r \<le> range_end (es ! f)" and L: "range_start (es ! l) \<le> snd r"
    using f(2) l(2) by (simp_all add: covers_def)
  have chain: "\<forall>j. Suc f \<le> j \<and> j \<le> l \<longrightarrow>
                 range_end (es ! (j - 1)) + 1 = range_start (es ! j)"
  proof (intro allI impI)
    fix j assume j: "Suc f \<le> j \<and> j \<le> l"
    then have j1: "f \<le> j - 1" "j - 1 \<le> l" "f \<le> j" "j \<le> l" "Suc (j - 1) = j" by auto
    have "intersects r (es ! (j - 1))"
      using segment_intersects [OF inv j1(1,2) l(1) F L] by simp
    moreover have "intersects r (es ! Suc (j - 1))"
      using segment_intersects [OF inv j1(3,4) l(1) F L] by (simp only: j1(5) prod.collapse)
    moreover have "Suc (j - 1) < length es" using j1 l(1) by simp
    moreover from a have "Suc (j - 1) < length es \<and> intersects r (es ! (j - 1)) \<and>
        intersects r (es ! Suc (j - 1)) \<longrightarrow>
        range_end (es ! (j - 1)) + 1 = range_start (es ! Suc (j - 1))"
      by blast
    ultimately have "range_end (es ! (j - 1)) + 1 = range_start (es ! Suc (j - 1))"
      by blast
    then show "range_end (es ! (j - 1)) + 1 = range_start (es ! j)" by (simp only: j1(5))
  qed
  from chain_covers [OF inv fl l(1) f(2) l(2)] chain
  show "\<forall>k. in_range k r \<longrightarrow> value_at es k \<noteq> None"
    unfolding value_at_None_iff by (simp add: in_range_def)
qed

text \<open>
  Claim C6. On a map or set that satisfies the class invariant, \<^verbatim>\<open>hasAll(r)\<close> with a valid range
  returns true exactly when every key of \<open>r\<close> is covered, which is the case exactly when the
  start and the end of \<open>r\<close> are covered and any two consecutive entries that both reach into
  \<open>r\<close> are adjacent. The operator \<^verbatim>\<open>~\<close> works on 32 bits, so the statement is for arrays of
  fewer than \<open>2 ^ 31\<close> entries.
\<close>

theorem hasAll_correct:
  assumes "class_invariant entries" "length entries < 2 ^ 31" "assertRange rng = Inr r"
  shows "SortedRangeMap_hasAll entries rng =
           Inr (\<forall>key. in_range key r \<longrightarrow> value_at entries key \<noteq> None) \<and>
         ((\<forall>key. in_range key r \<longrightarrow> value_at entries key \<noteq> None) \<longleftrightarrow>
            value_at entries (fst r) \<noteq> None \<and> value_at entries (snd r) \<noteq> None \<and>
            (\<forall>j. Suc j < length entries \<and> intersects r (entries ! j) \<and>
                  intersects r (entries ! Suc j) \<longrightarrow>
                  range_end (entries ! j) + 1 = range_start (entries ! Suc j))) \<and>
         SortedRangeSet_hasAll s rng = SortedRangeMap_hasAll s rng"
proof -
  have le: "fst r \<le> snd r" by (rule assertRange_Inr(1) [OF assms(3)])
  show ?thesis
    using hasAll_eq [OF assms] covered_iff_no_gap [OF assms(1) le]
    by (simp add: SortedRangeSet_hasAll_def)
qed

theorem hasAll_correct_witness:
  "class_invariant ([((5, 6), PositiveZero)] :: SortedRangeSet) \<and>
   length ([((5, 6), PositiveZero)] :: SortedRangeSet) < 2 ^ 31 \<and>
   assertRange (Finite 4, Finite 6) = Inr (4, 6) \<and>
   SortedRangeMap_hasAll ([((5, 6), PositiveZero)] :: SortedRangeSet) (Finite 4, Finite 6) = Inr False"
proof -
  let ?es = "[((5, 6), PositiveZero)] :: SortedRangeSet"
  have inv: "class_invariant ?es" by (simp add: range_start_def range_end_def)
  have len: "length ?es < 2 ^ 31" by simp
  have rng: "assertRange (Finite 4, Finite 6) = Inr (4, 6)"
    by (simp add: MAX_SAFE_INTEGER_def)
  have "in_range 4 (4, 6) \<and> value_at ?es 4 = None"
    by (simp add: in_range_def value_at_Cons value_at_Nil covers_def range_start_def
        range_end_def)
  then have "\<not> (\<forall>key. in_range key (4, 6) \<longrightarrow> value_at ?es key \<noteq> None)" by blast
  with hasAll_correct [OF inv len rng, of "[]"] inv len rng show ?thesis by simp
qed

section \<open>The values a map holds\<close>

text \<open>No operation invents a value: what a map holds afterwards it held before, or it is
  the value handed to \<^verbatim>\<open>set\<close>.\<close>

lemma entry_at_mem: "entry_at xs i = Some e \<Longrightarrow> e \<in> set xs"
  by (auto simp: entry_at_def split: if_splits)

lemma values_splice:
  "snd ` set (array_splice xs i d items) \<subseteq> snd ` set xs \<union> snd ` set items"
proof -
  have "set (array_splice xs i d items) \<subseteq> set xs \<union> set items"
    by (auto simp: array_splice_def Let_def dest: in_set_takeD in_set_dropD)
  then show ?thesis by blast
qed

lemma values_update: "snd ` set (xs[j := (q, v)]) \<subseteq> insert v (snd ` set xs)"
  using set_update_subset_insert [of xs j "(q, v)"] by auto

lemma deleteFromSingleRange_values:
  "snd ` set (snd (SortedRangeMap_deleteFromSingleRange es i r)) \<subseteq> snd ` set es"
proof (cases "entry_at es i")
  case None
  then show ?thesis by (simp add: SortedRangeMap_deleteFromSingleRange_def split: prod.splits)
next
  case (Some t)
  obtain ts te v where t: "t = ((ts, te), v)" by (metis prod.exhaust)
  have v: "v \<in> snd ` set es" using entry_at_mem [OF Some] t by force
  obtain ds de where r: "r = (ds, de)" by (cases r)
  have 1: "snd ` set (array_splice es i 1 []) \<subseteq> snd ` set es"
    using values_splice [of es i 1 "[]"] by simp
  have 2: "snd ` set (es[nat i := (q, v)]) \<subseteq> snd ` set es" for q
    using values_update [of es "nat i" q v] v by blast
  have 3: "snd ` set (array_splice (es[nat i := (q, v)]) (i + 1) 0 [(q', v)]) \<subseteq> snd ` set es"
    for q q'
    using values_splice [of "es[nat i := (q, v)]" "i + 1" 0 "[(q', v)]"] 2 [of q] v by auto
  show ?thesis
    unfolding SortedRangeMap_deleteFromSingleRange_def r
    by (simp add: Some t Let_def 1 2 3)
qed

lemma private_delete_values:
  "snd ` set (snd (SortedRangeMap_private_delete es r)) \<subseteq> snd ` set es"
proof (cases "SortedRangeMap_indicesOf es r")
  case (Inl e)
  then show ?thesis by (simp add: SortedRangeMap_private_delete_def)
next
  case (Inr found)
  show ?thesis
  proof (cases found)
    case None
    with Inr show ?thesis by (simp add: SortedRangeMap_private_delete_def)
  next
    case (Some fl)
    obtain f l where fl: "fl = (f, l)" by (cases fl)
    obtain out1 es1 where d1: "SortedRangeMap_deleteFromSingleRange es l r = (out1, es1)"
      by (cases "SortedRangeMap_deleteFromSingleRange es l r")
    have v1: "snd ` set es1 \<subseteq> snd ` set es"
      using deleteFromSingleRange_values [of es l r] d1 by simp
    let ?es2 = "array_splice es1 (f + 1) (l - (f + 1)) []"
    have v2: "snd ` set (array_splice es1 a b []) \<subseteq> snd ` set es" for a b
      using values_splice [of es1 a b "[]"] v1 by auto
    obtain out3 es3 where d3: "SortedRangeMap_deleteFromSingleRange ?es2 f r = (out3, es3)"
      by (cases "SortedRangeMap_deleteFromSingleRange ?es2 f r")
    have v3: "snd ` set es3 \<subseteq> snd ` set es"
      using deleteFromSingleRange_values [of ?es2 f r] d3 v2 [of "f + 1" "l - (f + 1)"] by auto
    show ?thesis
      unfolding SortedRangeMap_private_delete_def
      using v1 v2 v3
      by (cases out1; cases out3) (simp_all add: Inr Some fl d1 d3 Let_def)
  qed
qed

lemma maybeMerge_values:
  "snd ` set (snd (SortedRangeMap_maybeMergeWithPreviousEntry es i)) \<subseteq> snd ` set es"
proof (cases "entry_at es (i - 1)")
  case None
  then show ?thesis
    by (simp add: SortedRangeMap_maybeMergeWithPreviousEntry_def split: option.splits prod.splits)
next
  case (Some t)
  obtain q v where t: "t = (q, v)" by (cases t)
  have v: "v \<in> snd ` set es" using entry_at_mem [OF Some] t by force
  have "snd ` set ((array_splice es i 1 [])[j := (q', v)]) \<subseteq> snd ` set es" for j q'
    using values_update [of "array_splice es i 1 []" j q' v] values_splice [of es i 1 "[]"] v
    by auto
  then show ?thesis
    by (simp add: SortedRangeMap_maybeMergeWithPreviousEntry_def Some t Let_def
        split: option.splits prod.splits)
qed

lemma set_values:
  "snd ` set (snd (SortedRangeMap_set es rng v)) \<subseteq> insert v (snd ` set es)"
proof (cases "assertRange rng")
  case (Inl e)
  then show ?thesis by (auto simp: SortedRangeMap_set_def)
next
  case (Inr r)
  obtain out1 es1 where d: "SortedRangeMap_private_delete es r = (out1, es1)"
    by (cases "SortedRangeMap_private_delete es r")
  have v1: "snd ` set es1 \<subseteq> snd ` set es" using private_delete_values [of es r] d by simp
  show ?thesis
  proof (cases out1)
    case (Inl e)
    with v1 show ?thesis by (auto simp: SortedRangeMap_set_def Inr d)
  next
    case out1: (Inr deleted)
    show ?thesis
    proof (cases "SortedRangeMap_indexOf es1 (fst r)")
      case (Inl e)
      with v1 show ?thesis by (auto simp: SortedRangeMap_set_def Inr d out1)
    next
      case (Inr index)
      let ?es2 = "array_splice es1 (bitNot index) 0 [(r, v)]"
      have v2: "snd ` set ?es2 \<subseteq> insert v (snd ` set es)"
        using values_splice [of es1 "bitNot index" 0 "[(r, v)]"] v1 by auto
      obtain out3 es3 where m3:
        "(if bitNot index + 1 < SortedRangeMap_size ?es2
          then SortedRangeMap_maybeMergeWithPreviousEntry ?es2 (bitNot index + 1)
          else (Inr (), ?es2)) = (out3, es3)"
        by (metis prod.exhaust)
      have v3: "snd ` set es3 \<subseteq> insert v (snd ` set es)"
        using maybeMerge_values [of ?es2 "bitNot index + 1"] m3 v2
        by (auto split: if_splits)
      have v4: "snd ` set (snd (SortedRangeMap_maybeMergeWithPreviousEntry es3 (bitNot index)))
                  \<subseteq> insert v (snd ` set es)"
        using maybeMerge_values [of es3 "bitNot index"] v3 by blast
      show ?thesis
        unfolding SortedRangeMap_set_def
        using v3 v4
        by (cases out3) (simp_all add: \<open>assertRange rng = Inr r\<close> d out1 Inr Let_def m3)
    qed
  qed
qed

lemma delete_values:
  "snd ` set (snd (SortedRangeMap_delete es rng)) \<subseteq> snd ` set es"
  using private_delete_values [of es]
  by (simp add: SortedRangeMap_delete_def split: sum.splits)

lemma those_mem: "those xs = Some ys \<Longrightarrow> y \<in> set ys \<Longrightarrow> Some y \<in> set xs"
  by (induction xs arbitrary: ys) (auto split: option.splits)

lemma slice_values:
  assumes "SortedRangeMap_slice es rng = Inr sliced"
  shows "snd ` set sliced \<subseteq> snd ` set es"
proof (cases "assertRange rng")
  case (Inl e)
  with assms show ?thesis by (simp add: SortedRangeMap_slice_def)
next
  case (Inr r)
  obtain start "end" where r: "r = (start, end)" by (cases r)
  show ?thesis
  proof (cases "SortedRangeMap_indicesOf es r")
    case (Inl e)
    with assms Inr show ?thesis by (simp add: SortedRangeMap_slice_def)
  next
    case found: (Inr found)
    show ?thesis
    proof (cases found)
      case None
      with assms Inr found show ?thesis by (simp add: SortedRangeMap_slice_def)
    next
      case (Some fl)
      obtain f l where fl: "fl = (f, l)" by (cases fl)
      let ?reads = "map (\<lambda>index. map_option cloneEntry (entry_at es (f + int index)))
                      [0 ..< nat (l - f + 1)]"
      show ?thesis
      proof (cases "those ?reads")
        case None
        with assms Inr found Some fl show ?thesis by (simp add: SortedRangeMap_slice_def)
      next
        case copy: (Some entriesCopy)
        have vc: "snd ` set entriesCopy \<subseteq> snd ` set es"
        proof
          fix x assume "x \<in> snd ` set entriesCopy"
          then obtain y where y: "y \<in> set entriesCopy" "x = snd y" by blast
          have ce: "cloneEntry e = e" for e :: "'a RangeEntry"
            by (simp add: cloneEntry_def cloneRange_def split: prod.splits)
          from those_mem [OF copy y(1)] obtain e where "entry_at es e = Some y"
            by (auto simp: ce option.map_ident cong: option.map_cong)
          then show "x \<in> snd ` set es" using y(2) by (auto simp: entry_at_def split: if_splits)
        qed
        show ?thesis
        proof (cases "entry_at entriesCopy 0")
          case None
          with assms Inr found Some fl copy r show ?thesis
            by (simp add: SortedRangeMap_slice_def)
        next
          case first: (Some first)
          obtain fs fe fv where fst: "first = ((fs, fe), fv)" by (metis prod.exhaust)
          have "first \<in> set entriesCopy" by (rule entry_at_mem [OF first])
          then have "snd first \<in> snd ` set entriesCopy" by (rule imageI)
          then have fv: "fv \<in> snd ` set es" using fst vc by auto
          let ?c1 = "entriesCopy[0 := ((max start fs, fe), fv)]"
          have v1: "snd ` set ?c1 \<subseteq> snd ` set es"
            using values_update [of entriesCopy 0 "(max start fs, fe)" fv] vc fv by blast
          show ?thesis
          proof (cases "array_at ?c1 (- 1)")
            case None
            with assms Inr found Some fl copy r first fst show ?thesis
              by (simp add: SortedRangeMap_slice_def)
          next
            case last: (Some lst)
            obtain ls le lv where lst: "lst = ((ls, le), lv)" by (metis prod.exhaust)
            have "lst \<in> set ?c1" using last unfolding array_at_def by (rule entry_at_mem)
            then have "snd lst \<in> snd ` set ?c1" by (rule imageI)
            then have lv: "lv \<in> snd ` set es" using lst v1 by auto
            have "sliced = ?c1[length ?c1 - 1 := ((ls, min end le), lv)]"
              using assms Inr found Some fl copy r first fst last lst
              by (simp add: SortedRangeMap_slice_def)
            then show ?thesis
              using values_update [of ?c1 "length ?c1 - 1" "(ls, min end le)" lv] v1 lv
              by blast
          qed
        qed
      qed
    qed
  qed
qed

section \<open>The class invariant along sequences of operations\<close>

lemma assertRange_cases:
  obtains (invalid) "assertRange rng = Inl InvalidRange" | (valid) r where "assertRange rng = Inr r"
proof (cases "assertRange rng")
  case (Inl e)
  then have "e = InvalidRange" by (cases rng) (simp split: if_splits)
  with Inl show thesis by (intro invalid) simp
next
  case (Inr r)
  then show thesis by (rule valid)
qed

lemma set_invalid:
  "assertRange rng = Inl e \<Longrightarrow> SortedRangeMap_set es rng v = (Inl e, es)"
  by (simp add: SortedRangeMap_set_def)

lemma delete_invalid:
  "assertRange rng = Inl e \<Longrightarrow> SortedRangeMap_delete es rng = (Inl e, es)"
  by (simp add: SortedRangeMap_delete_def)

lemma slice_invalid:
  "assertRange rng = Inl e \<Longrightarrow> SortedRangeMap_slice es rng = Inl e"
  by (simp add: SortedRangeMap_slice_def)

lemma set_preserves:
  assumes inv: "class_invariant es" and len: "Suc (length es) < 2 ^ 31"
  shows "class_invariant (snd (SortedRangeMap_set es rng v))"
    and "length (snd (SortedRangeMap_set es rng v)) \<le> length es + 2"
proof -
  have "class_invariant (snd (SortedRangeMap_set es rng v)) \<and>
        length (snd (SortedRangeMap_set es rng v)) \<le> length es + 2"
  proof (cases rule: assertRange_cases [of rng])
    case invalid
    then show ?thesis using inv by (simp add: set_invalid)
  next
    case (valid r)
    from set_result [OF inv len valid, of v] show ?thesis by auto
  qed
  then show "class_invariant (snd (SortedRangeMap_set es rng v))"
    and "length (snd (SortedRangeMap_set es rng v)) \<le> length es + 2" by simp_all
qed

lemma delete_preserves:
  assumes inv: "class_invariant es" and len: "length es < 2 ^ 31"
  shows "class_invariant (snd (SortedRangeMap_delete es rng))"
    and "length (snd (SortedRangeMap_delete es rng)) \<le> length es + 2"
proof -
  have "class_invariant (snd (SortedRangeMap_delete es rng)) \<and>
        length (snd (SortedRangeMap_delete es rng)) \<le> length es + 2"
  proof (cases rule: assertRange_cases [of rng])
    case invalid
    then show ?thesis using inv by (simp add: delete_invalid)
  next
    case (valid r)
    from delete_eq [OF inv len valid] show ?thesis by simp
  qed
  then show "class_invariant (snd (SortedRangeMap_delete es rng))"
    and "length (snd (SortedRangeMap_delete es rng)) \<le> length es + 2" by simp_all
qed

lemma slice_preserves:
  assumes inv: "class_invariant es" and len: "length es < 2 ^ 31"
    and sl: "SortedRangeMap_slice es rng = Inr sliced"
  shows "class_invariant sliced" and "length sliced \<le> length es"
proof -
  from sl obtain r where r: "assertRange rng = Inr r"
    by (cases rule: assertRange_cases [of rng]) (simp_all add: slice_invalid)
  have le: "fst r \<le> snd r" by (rule assertRange_Inr(1) [OF r])
  from slice_eq [OF inv len r] sl have s: "sliced = map (clamp r) (filter (intersects r) es)"
    by simp
  show "class_invariant sliced" unfolding s by (rule inv_slice [OF inv le])
  show "length sliced \<le> length es" unfolding s by simp
qed

lemma apply_preserves:
  assumes inv: "class_invariant es" and len: "length es + 2 < 2 ^ 31"
  shows "class_invariant (SortedRangeMap_apply es c)"
    and "length (SortedRangeMap_apply es c) \<le> length es + 2"
proof -
  have l1: "Suc (length es) < 2 ^ 31" and l0: "length es < 2 ^ 31" using len by simp_all
  have "class_invariant (SortedRangeMap_apply es c) \<and>
        length (SortedRangeMap_apply es c) \<le> length es + 2"
  proof (cases c)
    case (Map_set rng v)
    then show ?thesis using set_preserves [OF inv l1] by simp
  next
    case (Map_delete rng)
    then show ?thesis using delete_preserves [OF inv l0] by simp
  next
    case Map_clear
    then show ?thesis by (simp add: SortedRangeMap_clear_def)
  next
    case (Map_slice rng)
    show ?thesis
    proof (cases "SortedRangeMap_slice es rng")
      case (Inl e)
      with Map_slice inv show ?thesis by simp
    next
      case (Inr sliced)
      with Map_slice slice_preserves [OF inv l0 Inr] show ?thesis by simp
    qed
  qed
  then show "class_invariant (SortedRangeMap_apply es c)"
    and "length (SortedRangeMap_apply es c) \<le> length es + 2" by simp_all
qed

lemma last_states_mem: "last (s # states step s cs) \<in> set (s # states step s cs)"
  by (rule last_in_set) simp

lemma states_invariant:
  "class_invariant es \<Longrightarrow>
   \<forall>es' \<in> set (es # states SortedRangeMap_apply es cs). length es' + 2 < 2 ^ 31 \<Longrightarrow>
     \<forall>es' \<in> set (states SortedRangeMap_apply es cs). class_invariant es'"
proof (induction cs arbitrary: es)
  case Nil
  show ?case by simp
next
  case (Cons c cs)
  have len: "length es + 2 < 2 ^ 31" using Cons.prems(2) by simp
  note ap = apply_preserves [OF Cons.prems(1) len, of c]
  have "\<forall>es' \<in> set (SortedRangeMap_apply es c # states SortedRangeMap_apply
           (SortedRangeMap_apply es c) cs). length es' + 2 < 2 ^ 31"
    using Cons.prems(2) by simp
  from Cons.IH [OF ap(1) this] ap(1) show ?case by simp
qed

lemma constructor_loop_states:
  "SortedRangeMap_constructor_loop this xs = Inr m \<Longrightarrow>
     m = last (this # states SortedRangeMap_apply this (map (\<lambda>(rng, v). Map_set rng v) xs))"
proof (induction xs arbitrary: this)
  case Nil
  then show ?case by simp
next
  case (Cons x xs)
  obtain rng v where x: "x = (rng, v)" by (cases x)
  obtain out this' where st: "SortedRangeMap_set this rng v = (out, this')"
    by (cases "SortedRangeMap_set this rng v")
  from Cons.prems x st obtain u where out: "out = Inr u"
    by (cases out) simp_all
  from Cons.prems x st out have rest: "SortedRangeMap_constructor_loop this' xs = Inr m"
    by simp
  from Cons.IH [OF rest] show ?case using x st by simp
qed

lemma constructor_states:
  assumes "SortedRangeMap_constructor init = Inr m"
  shows "m = last ([] # states SortedRangeMap_apply [] (SortedRangeMap_construction init))"
proof (cases init)
  case None
  with assms show ?thesis
    by (simp add: SortedRangeMap_constructor_def SortedRangeMap_construction_def)
next
  case (Some xs)
  with assms have "SortedRangeMap_constructor_loop [] xs = Inr m"
    by (simp add: SortedRangeMap_constructor_def)
  from constructor_loop_states [OF this] Some show ?thesis
    by (simp add: SortedRangeMap_construction_def)
qed

lemma inv_iff_nth:
  "class_invariant es \<longleftrightarrow>
     (\<forall>e \<in> set es. range_start e \<le> range_end e) \<and>
     (\<forall>j. Suc j < length es \<longrightarrow>
          range_end (es ! j) < range_start (es ! Suc j) \<and>
          \<not> (range_end (es ! j) + 1 = range_start (es ! Suc j) \<and>
             strictEquals (snd (es ! j)) (snd (es ! Suc j))))"
proof (induction es rule: class_invariant.induct)
  case 1
  show ?case by simp
next
  case (2 a)
  show ?case by simp
next
  case (3 a b rest)
  let ?P = "\<lambda>es j. range_end (es ! j) < range_start (es ! Suc j) \<and>
          \<not> (range_end (es ! j) + 1 = range_start (es ! Suc j) \<and>
             strictEquals (snd (es ! j)) (snd (es ! Suc j)))"
  have shift: "(\<forall>j. Suc j < length (a # b # rest) \<longrightarrow> ?P (a # b # rest) j) \<longleftrightarrow>
               ?P (a # b # rest) 0 \<and> (\<forall>j. Suc j < length (b # rest) \<longrightarrow> ?P (b # rest) j)"
  proof
    assume all: "\<forall>j. Suc j < length (a # b # rest) \<longrightarrow> ?P (a # b # rest) j"
    have "?P (b # rest) j" if "Suc j < length (b # rest)" for j
      using all [rule_format, of "Suc j"] that by simp
    moreover have "?P (a # b # rest) 0" using all [rule_format, of 0] by simp
    ultimately show "?P (a # b # rest) 0 \<and> (\<forall>j. Suc j < length (b # rest) \<longrightarrow> ?P (b # rest) j)"
      by blast
  next
    assume r: "?P (a # b # rest) 0 \<and> (\<forall>j. Suc j < length (b # rest) \<longrightarrow> ?P (b # rest) j)"
    show "\<forall>j. Suc j < length (a # b # rest) \<longrightarrow> ?P (a # b # rest) j"
    proof (intro allI impI)
      fix j assume j: "Suc j < length (a # b # rest)"
      show "?P (a # b # rest) j"
      proof (cases j)
        case 0
        with r show ?thesis by simp
      next
        case (Suc i)
        with j have "Suc i < length (b # rest)" by simp
        with r have "?P (b # rest) i" by blast
        with Suc show ?thesis by simp
      qed
    qed
  qed
  have "linked a b \<longleftrightarrow> ?P (a # b # rest) 0" by (simp add: linked_def mergeable_def)
  with 3 shift show ?case by (simp only: class_invariant.simps) auto
qed

text \<open>A set holds the value \<^verbatim>\<open>0\<close> only, which is equal to itself, so that its minimality
  is that no two consecutive ranges are adjacent.\<close>

lemma set_never_adjacent:
  assumes "class_invariant (s :: SortedRangeSet)" "\<forall>e \<in> set s. snd e = PositiveZero"
    and "Suc j < length s"
  shows "range_end (s ! j) + 1 < range_start (s ! Suc j)"
proof -
  have "snd (s ! j) = PositiveZero" "snd (s ! Suc j) = PositiveZero"
    using assms(2,3) by simp_all
  with inv_linked_nth [OF assms(1,3)] show ?thesis by (simp add: linked_def mergeable_def)
qed

lemma set_constructor_loop:
  "SortedRangeSet_constructor_loop this rs =
     SortedRangeMap_constructor_loop this (map (\<lambda>r. (r, PositiveZero)) rs)"
  by (induction rs arbitrary: this)
    (simp_all add: SortedRangeSet_add_def split: prod.splits sum.splits)

lemma set_step_preserves:
  assumes inv: "class_invariant s" and len: "length s + 2 < 2 ^ 31"
  shows "class_invariant (snd (SortedRangeSet_step s c))"
    and "length (snd (SortedRangeSet_step s c)) \<le> length s + 2"
proof -
  have l1: "Suc (length s) < 2 ^ 31" and l0: "length s < 2 ^ 31" using len by simp_all
  have "class_invariant (snd (SortedRangeSet_step s c)) \<and>
        length (snd (SortedRangeSet_step s c)) \<le> length s + 2"
  proof (cases c)
    case (Set_add rng)
    then show ?thesis using set_preserves [OF inv l1, of rng PositiveZero]
      by (auto simp: SortedRangeSet_add_def split: prod.splits sum.splits)
  next
    case (Set_delete rng)
    then show ?thesis using delete_preserves [OF inv l0, of rng]
      by (auto simp: SortedRangeSet_delete_def split: prod.splits sum.splits)
  next
    case Set_clear
    then show ?thesis by (simp add: SortedRangeSet_clear_def SortedRangeMap_clear_def)
  next
    case (Set_slice rng)
    show ?thesis
    proof (cases "SortedRangeMap_slice s rng")
      case (Inl e)
      with Set_slice inv show ?thesis
        by (simp add: SortedRangeSet_slice_def SortedRangeSet_constructor_def
            SortedRangeMap_constructor_def)
    next
      case (Inr sliced)
      with Set_slice slice_preserves [OF inv l0 Inr] show ?thesis
        by (simp add: SortedRangeSet_slice_def SortedRangeSet_constructor_def
            SortedRangeMap_constructor_def)
    qed
  qed (use inv in \<open>simp_all split: sum.splits\<close>)
  then show "class_invariant (snd (SortedRangeSet_step s c))"
    and "length (snd (SortedRangeSet_step s c)) \<le> length s + 2" by simp_all
qed

lemma set_step_values:
  assumes "\<forall>e \<in> set s. snd e = PositiveZero"
  shows "\<forall>e \<in> set (snd (SortedRangeSet_step s c)). snd e = PositiveZero"
proof -
  have z: "snd ` set s \<subseteq> {PositiveZero}" using assms by auto
  have "snd ` set (snd (SortedRangeSet_step s c)) \<subseteq> {PositiveZero}"
  proof (cases c)
    case (Set_add rng)
    have "snd (SortedRangeSet_step s (Set_add rng)) = snd (SortedRangeMap_set s rng PositiveZero)"
      by (simp add: SortedRangeSet_add_def split: prod.splits sum.splits)
    with Set_add set_values [of s rng PositiveZero] z show ?thesis by auto
  next
    case (Set_delete rng)
    have "snd (SortedRangeSet_step s (Set_delete rng)) = snd (SortedRangeMap_delete s rng)"
      by (simp add: SortedRangeSet_delete_def split: prod.splits sum.splits)
    with Set_delete delete_values [of s rng] z show ?thesis by auto
  next
    case Set_clear
    then show ?thesis by (simp add: SortedRangeSet_clear_def SortedRangeMap_clear_def)
  next
    case (Set_slice rng)
    show ?thesis
    proof (cases "SortedRangeMap_slice s rng")
      case (Inl e)
      with Set_slice z show ?thesis
        by (simp add: SortedRangeSet_slice_def SortedRangeSet_constructor_def
            SortedRangeMap_constructor_def)
    next
      case (Inr sliced)
      with Set_slice slice_values [OF Inr] z show ?thesis
        by (auto simp: SortedRangeSet_slice_def SortedRangeSet_constructor_def
            SortedRangeMap_constructor_def)
    qed
  qed (use z in \<open>simp_all split: sum.splits\<close>)
  then show ?thesis by auto
qed

lemma set_states_invariant:
  "class_invariant s \<Longrightarrow> \<forall>e \<in> set s. snd e = PositiveZero \<Longrightarrow>
   \<forall>s' \<in> set (s # states (\<lambda>this c. snd (SortedRangeSet_step this c)) s cs).
      length s' + 2 < 2 ^ 31 \<Longrightarrow>
     \<forall>s' \<in> set (states (\<lambda>this c. snd (SortedRangeSet_step this c)) s cs).
        class_invariant s' \<and> (\<forall>e \<in> set s'. snd e = PositiveZero)"
proof (induction cs arbitrary: s)
  case Nil
  show ?case by simp
next
  case (Cons c cs)
  have len: "length s + 2 < 2 ^ 31" using Cons.prems(3) by simp
  note ap = set_step_preserves [OF Cons.prems(1) len, of c]
  note vs = set_step_values [OF Cons.prems(2), of c]
  have "\<forall>s' \<in> set (snd (SortedRangeSet_step s c) #
           states (\<lambda>this c. snd (SortedRangeSet_step this c)) (snd (SortedRangeSet_step s c)) cs).
          length s' + 2 < 2 ^ 31"
    using Cons.prems(3) by simp
  from Cons.IH [OF ap(1) vs this] ap(1) vs show ?case by simp
qed

lemma set_constructor_loop_states:
  "SortedRangeSet_constructor_loop this rs = Inr s \<Longrightarrow>
     s = last (this # states (\<lambda>this c. snd (SortedRangeSet_step this c)) this (map Set_add rs))"
proof (induction rs arbitrary: this)
  case Nil
  then show ?case by simp
next
  case (Cons r rs)
  obtain out this' where st: "SortedRangeSet_add this r = (out, this')"
    by (cases "SortedRangeSet_add this r")
  from Cons.prems st obtain u where out: "out = Inr u"
    by (cases out) simp_all
  from Cons.prems st out have rest: "SortedRangeSet_constructor_loop this' rs = Inr s"
    by simp
  from Cons.IH [OF rest] show ?case using st out by simp
qed

lemma set_constructor_states:
  assumes "SortedRangeSet_constructor init = Inr s"
  shows "s = last ([] # states (\<lambda>this c. snd (SortedRangeSet_step this c)) []
                          (SortedRangeSet_construction init))"
proof (cases init)
  case None
  with assms show ?thesis
    by (simp add: SortedRangeSet_constructor_def SortedRangeMap_constructor_def
        SortedRangeSet_construction_def)
next
  case (Some rs)
  with assms have "SortedRangeSet_constructor_loop [] rs = Inr s"
    by (simp add: SortedRangeSet_constructor_def SortedRangeMap_constructor_def)
  from set_constructor_loop_states [OF this] Some show ?thesis
    by (simp add: SortedRangeSet_construction_def)
qed

text \<open>
  Claim C1. After construction from an iterable and after every operation of any sequence of
  \<^verbatim>\<open>set\<close>/\<^verbatim>\<open>add\<close>, \<^verbatim>\<open>delete\<close>, \<^verbatim>\<open>clear\<close> and \<^verbatim>\<open>slice\<close> (and, for a set, of its queries too),
  the entries satisfy the class invariant: every range has \<open>start \<le> end\<close>, each entry ends
  before the next starts, and no two consecutive entries are adjacent with equal values; in
  a set, consecutive ranges are never adjacent. Values are equal as \<^verbatim>\<open>===\<close> has it, which is
  what the code compares with: two adjacent entries that both hold \<^verbatim>\<open>NaN\<close> stay apart, and
  the theorem covers them. The operator \<^verbatim>\<open>~\<close> works on 32 bits, so the statement is for
  runs in which every array, those the constructor goes through included, has fewer than
  \<open>2 ^ 31 - 2\<close> entries.
\<close>

theorem invariant_after_every_operation:
  assumes "SortedRangeMap_constructor init = Inr m"
    and "\<forall>es \<in> set (states SortedRangeMap_apply [] (SortedRangeMap_construction init)).
           length es + 2 < 2 ^ 31"
    and "\<forall>es \<in> set (states SortedRangeMap_apply m cs). length es + 2 < 2 ^ 31"
    and "SortedRangeSet_constructor sinit = Inr s"
    and "\<forall>es \<in> set (states (\<lambda>this c. snd (SortedRangeSet_step this c)) []
                       (SortedRangeSet_construction sinit)). length es + 2 < 2 ^ 31"
    and "\<forall>es \<in> set (states (\<lambda>this c. snd (SortedRangeSet_step this c)) s scs).
           length es + 2 < 2 ^ 31"
  shows "(\<forall>m' \<in> set (m # states SortedRangeMap_apply m cs).
            class_invariant m' \<and>
            (\<forall>entry \<in> set m'. range_start entry \<le> range_end entry) \<and>
            (\<forall>j. Suc j < length m' \<longrightarrow>
               range_end (m' ! j) < range_start (m' ! Suc j) \<and>
               \<not> (range_end (m' ! j) + 1 = range_start (m' ! Suc j) \<and>
                  strictEquals (snd (m' ! j)) (snd (m' ! Suc j))))) \<and>
         (\<forall>s' \<in> set (s # states (\<lambda>this c. snd (SortedRangeSet_step this c)) s scs).
            class_invariant s' \<and>
            (\<forall>entry \<in> set s'. range_start entry \<le> range_end entry) \<and>
            (\<forall>j. Suc j < length s' \<longrightarrow> range_end (s' ! j) + 1 < range_start (s' ! Suc j)))"
proof -
  let ?step = "\<lambda>this c. snd (SortedRangeSet_step this c)"
  have e: "class_invariant ([] :: 'a Value SortedRangeMap)" by simp
  have "\<forall>es \<in> set ([] # states SortedRangeMap_apply [] (SortedRangeMap_construction init)).
          length es + 2 < 2 ^ 31"
    using assms(2) by simp
  from states_invariant [OF e this]
  have "\<forall>es \<in> set ([] # states SortedRangeMap_apply [] (SortedRangeMap_construction init)).
          class_invariant es \<and> length es + 2 < 2 ^ 31"
    using assms(2) by simp
  moreover have "m \<in> set ([] # states SortedRangeMap_apply [] (SortedRangeMap_construction init))"
    unfolding constructor_states [OF assms(1)] by (rule last_states_mem)
  ultimately have im: "class_invariant m" and lm: "length m + 2 < 2 ^ 31" by blast+
  have "\<forall>es \<in> set (m # states SortedRangeMap_apply m cs). length es + 2 < 2 ^ 31"
    using assms(3) lm by simp
  from states_invariant [OF im this] im
  have M: "\<forall>m' \<in> set (m # states SortedRangeMap_apply m cs). class_invariant m'" by simp
  have se: "class_invariant ([] :: SortedRangeSet)"
    and sz: "\<forall>e \<in> set ([] :: SortedRangeSet). snd e = PositiveZero" by simp_all
  have "\<forall>es \<in> set ([] # states ?step [] (SortedRangeSet_construction sinit)).
          length es + 2 < 2 ^ 31"
    using assms(5) by simp
  from set_states_invariant [OF se sz this]
  have "\<forall>es \<in> set ([] # states ?step [] (SortedRangeSet_construction sinit)).
          class_invariant es \<and> (\<forall>e \<in> set es. snd e = PositiveZero) \<and> length es + 2 < 2 ^ 31"
    using assms(5) by simp
  moreover have "s \<in> set ([] # states ?step [] (SortedRangeSet_construction sinit))"
    unfolding set_constructor_states [OF assms(4)] by (rule last_states_mem)
  ultimately have isv: "class_invariant s" and zs: "\<forall>e \<in> set s. snd e = PositiveZero"
    and ls: "length s + 2 < 2 ^ 31" by blast+
  have "\<forall>es \<in> set (s # states ?step s scs). length es + 2 < 2 ^ 31"
    using assms(6) ls by simp
  from set_states_invariant [OF isv zs this] isv zs
  have S: "\<forall>s' \<in> set (s # states ?step s scs).
             class_invariant s' \<and> (\<forall>e \<in> set s'. snd e = PositiveZero)" by simp
  have M': "class_invariant m' \<and>
            (\<forall>entry \<in> set m'. range_start entry \<le> range_end entry) \<and>
            (\<forall>j. Suc j < length m' \<longrightarrow>
               range_end (m' ! j) < range_start (m' ! Suc j) \<and>
               \<not> (range_end (m' ! j) + 1 = range_start (m' ! Suc j) \<and>
                  strictEquals (snd (m' ! j)) (snd (m' ! Suc j))))"
    if "m' \<in> set (m # states SortedRangeMap_apply m cs)" for m'
  proof -
    from M that have i: "class_invariant m'" by blast
    with i [unfolded inv_iff_nth] show ?thesis by blast
  qed
  have S': "class_invariant s' \<and>
            (\<forall>entry \<in> set s'. range_start entry \<le> range_end entry) \<and>
            (\<forall>j. Suc j < length s' \<longrightarrow> range_end (s' ! j) + 1 < range_start (s' ! Suc j))"
    if "s' \<in> set (s # states ?step s scs)" for s'
  proof -
    from S that have i: "class_invariant s'" and z: "\<forall>e \<in> set s'. snd e = PositiveZero"
      by blast+
    with i [unfolded inv_iff_nth] set_never_adjacent [OF i z] show ?thesis by blast
  qed
  from M' S' show ?thesis by blast
qed

theorem invariant_after_every_operation_witness:
  "SortedRangeMap_constructor
     (Some [((Finite 5, Finite 6), Other (42 :: nat)), ((Finite 1, Finite 4), Other 42)])
     = Inr [((1, 6), Other 42)] \<and>
   SortedRangeSet_constructor (Some [(Finite 1, Finite 2), (Finite 6, Finite 7)])
     = Inr [((1, 2), PositiveZero), ((6, 7), PositiveZero)] \<and>
   class_invariant [((1, 6), Other (42 :: nat))] \<and>
   SortedRangeMap_apply [((1, 6), Other (42 :: nat))] (Map_set (Finite 7, Finite 8) NotANumber)
     = [((1, 6), Other 42), ((7, 8), NotANumber)] \<and>
   SortedRangeMap_apply [((1, 6), Other (42 :: nat)), ((7, 8), NotANumber)]
       (Map_set (Finite 9, Finite 9) NotANumber)
     = [((1, 6), Other 42), ((7, 8), NotANumber), ((9, 9), NotANumber)] \<and>
   class_invariant [((1, 6), Other (42 :: nat)), ((7, 8), NotANumber), ((9, 9), NotANumber)] \<and>
   class_invariant ([((1, 2), PositiveZero), ((6, 7), PositiveZero)] :: SortedRangeSet) \<and>
   class_invariant
     (snd (SortedRangeSet_step [((1, 2), PositiveZero), ((6, 7), PositiveZero)]
             (Set_add (Finite 3, Finite 5))))"
proof -
  let ?init = "Some [((Finite 5, Finite 6), Other (42 :: nat)), ((Finite 1, Finite 4), Other 42)]"
  let ?m = "[((1, 6), Other (42 :: nat))]"
  let ?m1 = "[((1, 6), Other (42 :: nat)), ((7, 8), NotANumber)]"
  let ?m2 = "[((1, 6), Other (42 :: nat)), ((7, 8), NotANumber), ((9, 9), NotANumber)]"
  let ?cs = "[Map_set (Finite 7, Finite 8) NotANumber, Map_set (Finite 9, Finite 9) NotANumber]"
  let ?sinit = "Some [(Finite 1, Finite 2), (Finite 6, Finite 7)]"
  let ?s = "[((1, 2), PositiveZero), ((6, 7), PositiveZero)] :: SortedRangeSet"
  let ?scs = "[Set_add (Finite 3, Finite 5), Set_delete (Finite 3, Finite 5)]"
  let ?step = "\<lambda>this c. snd (SortedRangeSet_step this c)"
  have c: "SortedRangeMap_constructor ?init = Inr ?m" by code_simp
  have sc: "SortedRangeSet_constructor ?sinit = Inr ?s" by code_simp
  have a1: "SortedRangeMap_apply ?m (Map_set (Finite 7, Finite 8) NotANumber) = ?m1"
    by code_simp
  have a2: "SortedRangeMap_apply ?m1 (Map_set (Finite 9, Finite 9) NotANumber) = ?m2"
    by code_simp
  have k: "states SortedRangeMap_apply [] (SortedRangeMap_construction ?init)
             = [[((5, 6), Other 42)], ?m]"
    by code_simp
  have b0: "\<forall>es \<in> set (states SortedRangeMap_apply [] (SortedRangeMap_construction ?init)).
              length es + 2 < 2 ^ 31"
    unfolding k by simp
  have b1: "\<forall>es \<in> set (states SortedRangeMap_apply ?m ?cs). length es + 2 < 2 ^ 31"
    by (simp add: a1 a2 del: SortedRangeMap_apply.simps)
  have sk: "states ?step [] (SortedRangeSet_construction ?sinit)
              = [[((1, 2), PositiveZero)], ?s]"
    by code_simp
  have sb0: "\<forall>es \<in> set (states ?step [] (SortedRangeSet_construction ?sinit)).
               length es + 2 < 2 ^ 31"
    unfolding sk by simp
  have sk1: "states ?step ?s ?scs = [[((1, 7), PositiveZero)], ?s]"
    by code_simp
  have sb1: "\<forall>es \<in> set (states ?step ?s ?scs). length es + 2 < 2 ^ 31"
    unfolding sk1 by simp
  note all = invariant_after_every_operation [OF c b0 b1 sc sb0 sb1]
  have "class_invariant ?m" and "class_invariant ?m2"
    using all by (simp_all add: a1 a2 del: SortedRangeMap_apply.simps)
  moreover have "class_invariant ?s"
    and "class_invariant (snd (SortedRangeSet_step ?s (Set_add (Finite 3, Finite 5))))"
    using all by (simp_all del: SortedRangeSet_step.simps)
  ultimately show ?thesis using c sc a1 a2 by blast
qed

section \<open>Indices are in bounds\<close>

text \<open>
  Claim C10. On a map that satisfies the class invariant and for a valid range, \<^verbatim>\<open>#indicesOf\<close>
  returns \<^verbatim>\<open>undefined\<close> when the range intersects no entry, and otherwise a pair of indices
  with \<open>0 \<le> firstIndex \<le> lastIndex < size\<close>, so that the entries read at these indices exist.
  Hence \<^verbatim>\<open>#delete\<close>, with its two calls of \<^verbatim>\<open>#deleteFromSingleRange\<close>, and \<^verbatim>\<open>slice\<close> never
  destructure \<^verbatim>\<open>undefined\<close>: they return normally. The operator \<^verbatim>\<open>~\<close> works on 32 bits, so
  the statement is for arrays of fewer than \<open>2 ^ 31\<close> entries.
\<close>

theorem indicesOf_in_bounds:
  assumes "class_invariant entries" "length entries < 2 ^ 31" "assertRange rng = Inr r"
  shows "(if \<exists>entry \<in> set entries. intersects r entry
          then \<exists>firstIndex lastIndex.
                 SortedRangeMap_indicesOf entries r = Inr (Some (firstIndex, lastIndex)) \<and>
                 0 \<le> firstIndex \<and> firstIndex \<le> lastIndex \<and>
                 lastIndex < SortedRangeMap_size entries \<and>
                 entry_at entries firstIndex \<noteq> None \<and> entry_at entries lastIndex \<noteq> None \<and>
                 (\<exists>entries1. SortedRangeMap_deleteFromSingleRange entries lastIndex r =
                    (Inr (), entries1))
          else SortedRangeMap_indicesOf entries r = Inr None) \<and>
         (\<exists>deleted entries'. SortedRangeMap_private_delete entries r = (Inr deleted, entries')) \<and>
         (\<exists>sliced. SortedRangeMap_slice entries rng = Inr sliced)"
proof -
  obtain ds de where r: "r = (ds, de)" by (cases r)
  have le: "ds \<le> de" using assertRange_Inr(1) [OF assms(3)] r by simp
  have io: "if \<exists>entry \<in> set entries. intersects r entry
          then \<exists>firstIndex lastIndex.
                 SortedRangeMap_indicesOf entries r = Inr (Some (firstIndex, lastIndex)) \<and>
                 0 \<le> firstIndex \<and> firstIndex \<le> lastIndex \<and>
                 lastIndex < SortedRangeMap_size entries \<and>
                 entry_at entries firstIndex \<noteq> None \<and> entry_at entries lastIndex \<noteq> None \<and>
                 (\<exists>entries1. SortedRangeMap_deleteFromSingleRange entries lastIndex r =
                    (Inr (), entries1))
          else SortedRangeMap_indicesOf entries r = Inr None"
    using indicesOf_spec [OF assms(1,2) le]
  proof (elim disjE exE conjE)
    assume "SortedRangeMap_indicesOf entries (ds, de) = Inr None"
    with indicesOf_None_iff(2) [OF assms(1,2) le] show ?thesis by (simp add: r)
  next
    fix f l
    assume s: "SortedRangeMap_indicesOf entries (ds, de) = Inr (Some (int f, int l))"
      and fl: "f \<le> l" and l: "l < length entries"
    have "\<exists>entry \<in> set entries. intersects r entry"
      using indicesOf_None_iff(2) [OF assms(1,2) le] s by (simp add: r)
    moreover have "entry_at entries (int f) \<noteq> None" "entry_at entries (int l) \<noteq> None"
      using fl l by (simp_all add: entry_at_def)
    moreover have "\<exists>entries1. SortedRangeMap_deleteFromSingleRange entries (int l) r =
                    (Inr (), entries1)"
      using deleteFromSingleRange_eq [OF l, of r] by blast
    ultimately show ?thesis using s fl l
      by (simp add: r SortedRangeMap_size_def)
  qed
  have pd: "\<exists>deleted entries'. SortedRangeMap_private_delete entries r = (Inr deleted, entries')"
    using private_delete_result(1) [OF assms(1,2) le] by (simp add: r)
  have sl: "\<exists>sliced. SortedRangeMap_slice entries rng = Inr sliced"
    using slice_eq [OF assms] by blast
  from io pd sl show ?thesis by blast
qed

theorem indicesOf_in_bounds_witness:
  "class_invariant ([((1, 2), PositiveZero), ((6, 7), PositiveZero)] :: SortedRangeSet) \<and>
   length ([((1, 2), PositiveZero), ((6, 7), PositiveZero)] :: SortedRangeSet) < 2 ^ 31 \<and>
   assertRange (Finite 2, Finite 6) = Inr (2, 6) \<and>
   SortedRangeMap_indicesOf ([((1, 2), PositiveZero), ((6, 7), PositiveZero)] :: SortedRangeSet) (2, 6)
     = Inr (Some (0, 1)) \<and>
   (\<exists>sliced. SortedRangeMap_slice ([((1, 2), PositiveZero), ((6, 7), PositiveZero)] :: SortedRangeSet)
               (Finite 2, Finite 6) = Inr sliced)"
proof -
  let ?es = "[((1, 2), PositiveZero), ((6, 7), PositiveZero)] :: SortedRangeSet"
  have inv: "class_invariant ?es"
    by (simp add: linked_def mergeable_def range_start_def range_end_def)
  have len: "length ?es < 2 ^ 31" by simp
  have rng: "assertRange (Finite 2, Finite 6) = Inr (2, 6)"
    by (simp add: MAX_SAFE_INTEGER_def)
  have io: "SortedRangeMap_indicesOf ?es (2, 6) = Inr (Some (0, 1))" by code_simp
  from indicesOf_in_bounds [OF inv len rng]
  have "\<exists>sliced. SortedRangeMap_slice ?es (Finite 2, Finite 6) = Inr sliced" by blast
  with inv len rng io show ?thesis by blast
qed

section \<open>Errors\<close>

lemma hasAll_invalid:
  "assertRange rng = Inl e \<Longrightarrow> SortedRangeMap_hasAll es rng = Inl e"
  by (simp add: SortedRangeMap_hasAll_def)

lemma hasAny_invalid:
  "assertRange rng = Inl e \<Longrightarrow> SortedRangeMap_hasAny es rng = Inl e"
  by (simp add: SortedRangeMap_hasAny_def)

lemma assertRange_Inl_iff:
  "assertRange rng = Inl InvalidRange \<longleftrightarrow>
     \<not> isSafeInteger (fst rng) \<or> \<not> isSafeInteger (snd rng) \<or> number_gt (fst rng) (snd rng)"
  by (cases rng) simp

lemma constructor_loop_result:
  "class_invariant this \<Longrightarrow> length this + 2 * length xs < 2 ^ 31 \<Longrightarrow>
     (if \<exists>x \<in> set xs. assertRange (fst x) = Inl InvalidRange
      then SortedRangeMap_constructor_loop this xs = Inl InvalidRange
      else \<exists>m. SortedRangeMap_constructor_loop this xs = Inr m)"
proof (induction xs arbitrary: this)
  case Nil
  show ?case by simp
next
  case (Cons x xs)
  obtain rng v where x: "x = (rng, v)" by (cases x)
  have len: "Suc (length this) < 2 ^ 31" using Cons.prems(2) by simp
  show ?case
  proof (cases rule: assertRange_cases [of rng])
    case invalid
    then show ?thesis by (simp add: x set_invalid)
  next
    case (valid r)
    from set_result [OF Cons.prems(1) len valid, of v]
    obtain this' where st: "SortedRangeMap_set this rng v = (Inr (), this')"
      and inv': "class_invariant this'" and len': "length this' \<le> length this + 2"
      by blast
    have "length this' + 2 * length xs < 2 ^ 31" using len' Cons.prems(2) by simp
    from Cons.IH [OF inv' this] valid st show ?thesis by (simp add: x)
  qed
qed

text \<open>
  Claim C4. \<^verbatim>\<open>assertRange\<close> throws exactly when an endpoint is not a safe integer or
  \<open>start > end\<close>, and this is the only error: on such a range \<^verbatim>\<open>set\<close>/\<^verbatim>\<open>add\<close>, \<^verbatim>\<open>delete\<close>,
  \<^verbatim>\<open>slice\<close>, \<^verbatim>\<open>hasAll\<close> and \<^verbatim>\<open>hasAny\<close> of a map and of a set throw it and leave the entries as
  they were, and on a valid range, on a structure that satisfies the class invariant, they
  return normally. A constructor throws it exactly when one of the given ranges is invalid,
  and then no structure exists. The operator \<^verbatim>\<open>~\<close> works on 32 bits, so the part on valid
  ranges is for arrays that stay below \<open>2 ^ 31\<close> entries.
\<close>

theorem invalid_range_error:
  assumes "class_invariant entries" "length entries + 2 < 2 ^ 31"
    and "class_invariant (s :: SortedRangeSet)" "length s + 2 < 2 ^ 31"
    and "2 * length xs < (2 :: nat) ^ 31" "2 * length rs < (2 :: nat) ^ 31"
  shows "(assertRange rng = Inl InvalidRange \<longleftrightarrow>
            \<not> isSafeInteger (fst rng) \<or> \<not> isSafeInteger (snd rng) \<or>
            number_gt (fst rng) (snd rng)) \<and>
         (if assertRange rng = Inl InvalidRange
          then SortedRangeMap_set entries rng v = (Inl InvalidRange, entries) \<and>
               SortedRangeMap_delete entries rng = (Inl InvalidRange, entries) \<and>
               SortedRangeMap_slice entries rng = Inl InvalidRange \<and>
               SortedRangeMap_hasAll entries rng = Inl InvalidRange \<and>
               SortedRangeMap_hasAny entries rng = Inl InvalidRange \<and>
               SortedRangeSet_add s rng = (Inl InvalidRange, s) \<and>
               SortedRangeSet_delete s rng = (Inl InvalidRange, s) \<and>
               SortedRangeSet_slice s rng = Inl InvalidRange \<and>
               SortedRangeSet_hasAll s rng = Inl InvalidRange \<and>
               SortedRangeSet_hasAny s rng = Inl InvalidRange
          else (\<exists>entries'. SortedRangeMap_set entries rng v = (Inr (), entries')) \<and>
               (\<exists>deleted entries'. SortedRangeMap_delete entries rng = (Inr deleted, entries')) \<and>
               (\<exists>sliced. SortedRangeMap_slice entries rng = Inr sliced) \<and>
               (\<exists>b. SortedRangeMap_hasAll entries rng = Inr b) \<and>
               (\<exists>b. SortedRangeMap_hasAny entries rng = Inr b) \<and>
               (\<exists>s'. SortedRangeSet_add s rng = (Inr (), s')) \<and>
               (\<exists>deleted s'. SortedRangeSet_delete s rng = (Inr deleted, s')) \<and>
               (\<exists>sliced. SortedRangeSet_slice s rng = Inr sliced) \<and>
               (\<exists>b. SortedRangeSet_hasAll s rng = Inr b) \<and>
               (\<exists>b. SortedRangeSet_hasAny s rng = Inr b)) \<and>
         (if \<exists>x \<in> set xs. assertRange (fst x) = Inl InvalidRange
          then SortedRangeMap_constructor (Some xs) = Inl InvalidRange
          else \<exists>m. SortedRangeMap_constructor (Some xs) = Inr m) \<and>
         (if \<exists>x \<in> set rs. assertRange x = Inl InvalidRange
          then SortedRangeSet_constructor (Some rs) = Inl InvalidRange
          else \<exists>m. SortedRangeSet_constructor (Some rs) = Inr m) \<and>
         SortedRangeMap_constructor None = Inr ([] :: 'a Value SortedRangeMap) \<and>
         SortedRangeSet_constructor None = Inr []"
proof -
  have l0: "length entries < 2 ^ 31" and l1: "Suc (length entries) < 2 ^ 31"
    and s0: "length s < 2 ^ 31" and s1: "Suc (length s) < 2 ^ 31"
    using assms(2,4) by simp_all
  have ops: "if assertRange rng = Inl InvalidRange
          then SortedRangeMap_set es rng w = (Inl InvalidRange, es) \<and>
               SortedRangeMap_delete es rng = (Inl InvalidRange, es) \<and>
               SortedRangeMap_slice es rng = Inl InvalidRange \<and>
               SortedRangeMap_hasAll es rng = Inl InvalidRange \<and>
               SortedRangeMap_hasAny es rng = Inl InvalidRange
          else (\<exists>es'. SortedRangeMap_set es rng w = (Inr (), es')) \<and>
               (\<exists>deleted es'. SortedRangeMap_delete es rng = (Inr deleted, es')) \<and>
               (\<exists>sliced. SortedRangeMap_slice es rng = Inr sliced) \<and>
               (\<exists>b. SortedRangeMap_hasAll es rng = Inr b) \<and>
               (\<exists>b. SortedRangeMap_hasAny es rng = Inr b)"
    if inv: "class_invariant es" and len: "Suc (length es) < 2 ^ 31"
    for es :: "'w Value SortedRangeMap" and w
  proof (cases rule: assertRange_cases [of rng])
    case invalid
    then show ?thesis
      by (simp add: set_invalid delete_invalid slice_invalid hasAll_invalid hasAny_invalid)
  next
    case (valid r)
    have len0: "length es < 2 ^ 31" using len by simp
    have "\<exists>es'. SortedRangeMap_set es rng w = (Inr (), es')"
      using set_result [OF inv len valid, of w] by blast
    moreover have "\<exists>deleted es'. SortedRangeMap_delete es rng = (Inr deleted, es')"
      using delete_eq(1) [OF inv len0 valid] by blast
    moreover have "\<exists>sliced. SortedRangeMap_slice es rng = Inr sliced"
      using slice_eq [OF inv len0 valid] by blast
    moreover have "\<exists>b. SortedRangeMap_hasAll es rng = Inr b"
      using hasAll_eq [OF inv len0 valid] by blast
    moreover have "\<exists>b. SortedRangeMap_hasAny es rng = Inr b"
      using hasAny_eq [OF inv len0 valid] by blast
    ultimately show ?thesis using valid by simp
  qed
  have mc: "if \<exists>x \<in> set xs. assertRange (fst x) = Inl InvalidRange
          then SortedRangeMap_constructor (Some xs) = Inl InvalidRange
          else \<exists>m. SortedRangeMap_constructor (Some xs) = Inr m"
    using constructor_loop_result [of "[]" xs] assms(5)
    by (simp add: SortedRangeMap_constructor_def)
  let ?xs = "map (\<lambda>r. (r, PositiveZero :: unit Value)) rs"
  have "if \<exists>x \<in> set ?xs. assertRange (fst x) = Inl InvalidRange
          then SortedRangeMap_constructor_loop [] ?xs = Inl InvalidRange
          else \<exists>m. SortedRangeMap_constructor_loop [] ?xs = Inr m"
    using assms(6) by (intro constructor_loop_result) simp_all
  then have sc: "if \<exists>x \<in> set rs. assertRange x = Inl InvalidRange
          then SortedRangeSet_constructor (Some rs) = Inl InvalidRange
          else \<exists>m. SortedRangeSet_constructor (Some rs) = Inr m"
    by (simp add: SortedRangeSet_constructor_def SortedRangeMap_constructor_def
        set_constructor_loop)
  have e: "SortedRangeMap_constructor None = Inr ([] :: 'a Value SortedRangeMap)"
    "SortedRangeSet_constructor None = Inr []"
    by (simp_all add: SortedRangeSet_constructor_def SortedRangeMap_constructor_def)
  have sets: "SortedRangeSet_add s rng = SortedRangeMap_set s rng PositiveZero"
    "SortedRangeSet_delete s rng = SortedRangeMap_delete s rng"
    "SortedRangeSet_slice s rng = SortedRangeMap_slice s rng"
    "SortedRangeSet_hasAll s rng = SortedRangeMap_hasAll s rng"
    "SortedRangeSet_hasAny s rng = SortedRangeMap_hasAny s rng"
    by (simp_all add: SortedRangeSet_add_def SortedRangeSet_delete_def SortedRangeSet_slice_def
        SortedRangeSet_hasAll_def SortedRangeSet_hasAny_def SortedRangeSet_constructor_def
        SortedRangeMap_constructor_def split: sum.splits)
  show ?thesis
    using ops [OF assms(1) l1, of v] ops [OF assms(3) s1, of PositiveZero] mc sc e
    unfolding sets assertRange_Inl_iff [symmetric]
    by (cases "assertRange rng = Inl InvalidRange") simp_all
qed

theorem invalid_range_error_witness:
  "class_invariant [((5, 6), Other (42 :: nat))] \<and> length [((5 :: int, 6 :: int), Other (42 :: nat))] + 2 < 2 ^ 31 \<and>
   class_invariant ([((5, 6), PositiveZero)] :: SortedRangeSet) \<and>
   length ([((5, 6), PositiveZero)] :: SortedRangeSet) + 2 < 2 ^ 31 \<and>
   2 * length [((Finite (1 / 2), Finite 1), Other (42 :: nat))] < (2 :: nat) ^ 31 \<and>
   2 * length [(Finite 1, Finite 0)] < (2 :: nat) ^ 31 \<and>
   assertRange (Finite (1 / 2), Finite 1) = Inl InvalidRange \<and>
   SortedRangeMap_set [((5, 6), Other (42 :: nat))] (Finite (1 / 2), Finite 1) (Other 7) =
     (Inl InvalidRange, [((5, 6), Other 42)]) \<and>
   SortedRangeSet_delete [((5, 6), PositiveZero)] (Finite (1 / 2), Finite 1) =
     (Inl InvalidRange, [((5, 6), PositiveZero)]) \<and>
   SortedRangeMap_constructor (Some [((Finite (1 / 2), Finite 1), Other (42 :: nat))]) = Inl InvalidRange \<and>
   SortedRangeSet_constructor (Some [(Finite 1, Finite 0)]) = Inl InvalidRange"
proof -
  let ?es = "[((5, 6), Other 42)] :: nat Value SortedRangeMap"
  let ?s = "[((5, 6), PositiveZero)] :: SortedRangeSet"
  let ?xs = "[((Finite (1 / 2), Finite 1), Other (42 :: nat))]"
  let ?rs = "[(Finite 1, Finite 0)]"
  let ?rng = "(Finite (1 / 2), Finite 1)"
  have h: "class_invariant ?es" "length ?es + 2 < 2 ^ 31" "class_invariant ?s"
    "length ?s + 2 < 2 ^ 31" "2 * length ?xs < (2 :: nat) ^ 31" "2 * length ?rs < (2 :: nat) ^ 31"
    by (simp_all add: range_start_def range_end_def)
  have bad: "assertRange ?rng = Inl InvalidRange" by code_simp
  have bx: "\<exists>x \<in> set ?xs. assertRange (fst x) = Inl InvalidRange" using bad by simp
  have "assertRange (Finite 1, Finite 0) = Inl InvalidRange" by code_simp
  then have br: "\<exists>x \<in> set ?rs. assertRange x = Inl InvalidRange" by simp
  note t = invalid_range_error [OF h, of ?rng "Other 7"]
  have "SortedRangeMap_set ?es ?rng (Other 7) = (Inl InvalidRange, ?es)"
    "SortedRangeSet_delete ?s ?rng = (Inl InvalidRange, ?s)"
    using t bad by (simp_all only: simp_thms if_True) (elim conjE, assumption)+
  moreover have "SortedRangeMap_constructor (Some ?xs) = Inl InvalidRange"
    "SortedRangeSet_constructor (Some ?rs) = Inl InvalidRange"
    using t bx br by (simp_all only: simp_thms if_True) (elim conjE, assumption)+
  ultimately show ?thesis using h bad by blast
qed

section \<open>The set as a map with a placeholder value\<close>

lemma entry_at_map: "entry_at (map f xs) i = map_option f (entry_at xs i)"
  by (auto simp: entry_at_def)

lemma array_at_map: "array_at (map f xs) i = map_option f (array_at xs i)"
  by (simp add: array_at_def entry_at_map)

lemma splice_map:
  "array_splice (map f xs) st dc (map f items) = map f (array_splice xs st dc items)"
  by (simp add: array_splice_def Let_def take_map drop_map)

lemma indexOf_loop_relabel:
  "SortedRangeMap_indexOf_loop (map (apsnd g) es) key low high =
     SortedRangeMap_indexOf_loop es key low high"
proof (induction es key low high rule: SortedRangeMap_indexOf_loop.induct)
  case (1 entries key low high)
  show ?case
  proof (cases "low \<le> high")
    case False
    then show ?thesis by simp
  next
    case True
    define middle where "middle = low + ushr1 (high - low)"
    show ?thesis
    proof (cases "entry_at entries middle")
      case None
      then show ?thesis
        using True
        by (subst (1 2) SortedRangeMap_indexOf_loop.simps)
          (simp add: middle_def [symmetric] entry_at_map Let_def)
    next
      case (Some e)
      obtain s e' v where e: "e = ((s, e'), v)" by (metis prod.exhaust)
      note ea = Some [unfolded e]
      have ea': "entry_at (map (apsnd g) entries) middle = Some ((s, e'), g v)"
        by (simp add: entry_at_map ea)
      consider (gt) "key > e'" | (lt) "\<not> key > e'" "key < s" | (hit) "\<not> key > e'" "\<not> key < s"
        by blast
      then show ?thesis
      proof cases
        case gt
        have "SortedRangeMap_indexOf_loop (map (apsnd g) entries) key (middle + 1) high =
              SortedRangeMap_indexOf_loop entries key (middle + 1) high"
          by (rule 1(1) [OF True middle_def ea refl refl gt])
        then show ?thesis
          using True gt ea ea'
          by (subst (1 2) SortedRangeMap_indexOf_loop.simps)
            (simp add: middle_def [symmetric] Let_def)
      next
        case lt
        have "SortedRangeMap_indexOf_loop (map (apsnd g) entries) key low (middle - 1) =
              SortedRangeMap_indexOf_loop entries key low (middle - 1)"
          by (rule 1(2) [OF True middle_def ea refl refl lt(1) lt(2)])
        then show ?thesis
          using True lt ea ea'
          by (subst (1 2) SortedRangeMap_indexOf_loop.simps)
            (simp add: middle_def [symmetric] Let_def)
      next
        case hit
        then show ?thesis
          using True ea ea'
          by (subst (1 2) SortedRangeMap_indexOf_loop.simps)
            (simp add: middle_def [symmetric] Let_def)
      qed
    qed
  qed
qed

lemma indexOf_relabel:
  "SortedRangeMap_indexOf (map (apsnd g) es) key = SortedRangeMap_indexOf es key"
  by (simp only: SortedRangeMap_indexOf_def SortedRangeMap_size_def indexOf_loop_relabel
      length_map)

lemma indicesOf_relabel:
  "SortedRangeMap_indicesOf (map (apsnd g) es) r = SortedRangeMap_indicesOf es r"
  unfolding SortedRangeMap_indicesOf_def indexOf_relabel ..

text \<open>Relabelling the values commutes with \<^verbatim>\<open>set\<close> when it keeps \<^verbatim>\<open>===\<close> as it is on the values
  at hand.\<close>

lemma maybeMerge_relabel:
  assumes "\<forall>a \<in> snd ` set es. \<forall>b \<in> snd ` set es. strictEquals (g a) (g b) = strictEquals a b"
  shows "SortedRangeMap_maybeMergeWithPreviousEntry (map (apsnd g) es) i =
           apsnd (map (apsnd g)) (SortedRangeMap_maybeMergeWithPreviousEntry es i)"
proof (cases "entry_at es i")
  case None
  then show ?thesis
    by (simp add: SortedRangeMap_maybeMergeWithPreviousEntry_def entry_at_map)
next
  case cur: (Some x)
  obtain s e v where x: "x = ((s, e), v)" by (metis prod.exhaust)
  show ?thesis
  proof (cases "entry_at es (i - 1)")
    case None
    then show ?thesis
      by (simp add: SortedRangeMap_maybeMergeWithPreviousEntry_def entry_at_map cur x)
  next
    case prev: (Some y)
    obtain ps pe pv where y: "y = ((ps, pe), pv)" by (metis prod.exhaust)
    have "v \<in> snd ` set es" "pv \<in> snd ` set es"
      using entry_at_mem [OF cur] entry_at_mem [OF prev] x y by force+
    with assms have eq: "strictEquals (g pv) (g v) = strictEquals pv v" by blast
    have sp: "array_splice (map (apsnd g) es) i 1 [] = map (apsnd g) (array_splice es i 1 [])"
      using splice_map [of "apsnd g" es i 1 "[]"] by simp
    show ?thesis
      by (simp add: SortedRangeMap_maybeMergeWithPreviousEntry_def entry_at_map cur x prev y
          eq sp map_update Let_def)
  qed
qed

lemma deleteFromSingleRange_relabel:
  "SortedRangeMap_deleteFromSingleRange (map (apsnd g) es) i r =
     apsnd (map (apsnd g)) (SortedRangeMap_deleteFromSingleRange es i r)"
proof -
  have sp: "array_splice (map (apsnd g) es) i 1 [] = map (apsnd g) (array_splice es i 1 [])"
    using splice_map [of "apsnd g" es i 1 "[]"] by simp
  have sp2: "array_splice (map (apsnd g) xs) (i + 1) 0 [(a, g v)] =
               map (apsnd g) (array_splice xs (i + 1) 0 [(a, v)])" for xs a v
    using splice_map [of "apsnd g" xs "i + 1" 0 "[(a, v)]"] by simp
  have up: "(map (apsnd g) xs)[n := (a, g v)] = map (apsnd g) (xs[n := (a, v)])" for xs n a v
    by (simp add: map_update)
  show ?thesis
    unfolding SortedRangeMap_deleteFromSingleRange_def
    by (auto simp: entry_at_map sp up sp2 Let_def split: option.splits prod.splits)
qed

lemma private_delete_relabel:
  "SortedRangeMap_private_delete (map (apsnd g) es) r =
     apsnd (map (apsnd g)) (SortedRangeMap_private_delete es r)"
proof -
  have sp: "array_splice (map (apsnd g) xs) a b [] = map (apsnd g) (array_splice xs a b [])"
    for xs a b
    using splice_map [of "apsnd g" xs a b "[]"] by simp
  show ?thesis
    unfolding SortedRangeMap_private_delete_def indicesOf_relabel
    by (auto simp: deleteFromSingleRange_relabel sp Let_def
        split: sum.splits option.splits prod.splits)
qed

lemma delete_relabel:
  "SortedRangeMap_delete (map (apsnd g) es) rng =
     apsnd (map (apsnd g)) (SortedRangeMap_delete es rng)"
  by (simp add: SortedRangeMap_delete_def private_delete_relabel split: sum.splits)

lemma ball_ball_subset: "\<forall>a \<in> A. \<forall>b \<in> A. P a b \<Longrightarrow> B \<subseteq> A \<Longrightarrow> \<forall>a \<in> B. \<forall>b \<in> B. P a b"
  by blast

lemma set_relabel:
  assumes pres: "\<forall>a \<in> insert v (snd ` set es). \<forall>b \<in> insert v (snd ` set es).
                   strictEquals (g a) (g b) = strictEquals a b"
  shows "SortedRangeMap_set (map (apsnd g) es) rng (g v) =
           apsnd (map (apsnd g)) (SortedRangeMap_set es rng v)"
proof (cases "assertRange rng")
  case (Inl e)
  then show ?thesis by (simp add: SortedRangeMap_set_def)
next
  case rng: (Inr r)
  obtain out1 es1 where d: "SortedRangeMap_private_delete es r = (out1, es1)"
    by (cases "SortedRangeMap_private_delete es r")
  have d': "SortedRangeMap_private_delete (map (apsnd g) es) r = (out1, map (apsnd g) es1)"
    by (simp add: private_delete_relabel d)
  have v1: "snd ` set es1 \<subseteq> snd ` set es" using private_delete_values [of es r] d by simp
  show ?thesis
  proof (cases out1)
    case (Inl e)
    then show ?thesis by (simp add: SortedRangeMap_set_def rng d d')
  next
    case out1: (Inr deleted)
    show ?thesis
    proof (cases "SortedRangeMap_indexOf es1 (fst r)")
      case (Inl e)
      then show ?thesis by (simp add: SortedRangeMap_set_def rng d d' out1 indexOf_relabel)
    next
      case idx: (Inr index)
      let ?i = "bitNot index"
      let ?es2 = "array_splice es1 ?i 0 [(r, v)]"
      have sp: "array_splice (map (apsnd g) es1) ?i 0 [(r, g v)] = map (apsnd g) ?es2"
        using splice_map [of "apsnd g" es1 ?i 0 "[(r, v)]"] by simp
      have sz: "SortedRangeMap_size (map (apsnd g) ?es2) = SortedRangeMap_size ?es2"
        by (simp add: SortedRangeMap_size_def)
      have v2: "snd ` set ?es2 \<subseteq> insert v (snd ` set es)"
        using values_splice [of es1 ?i 0 "[(r, v)]"] v1 by auto
      have p2: "\<forall>a \<in> snd ` set ?es2. \<forall>b \<in> snd ` set ?es2.
                  strictEquals (g a) (g b) = strictEquals a b"
        by (rule ball_ball_subset [OF pres v2])
      obtain out3 es3 where m3:
        "(if ?i + 1 < SortedRangeMap_size ?es2
          then SortedRangeMap_maybeMergeWithPreviousEntry ?es2 (?i + 1)
          else (Inr (), ?es2)) = (out3, es3)"
        by (cases "(if ?i + 1 < SortedRangeMap_size ?es2
          then SortedRangeMap_maybeMergeWithPreviousEntry ?es2 (?i + 1)
          else (Inr (), ?es2))") 
      have m3': "(if ?i + 1 < SortedRangeMap_size ?es2
          then SortedRangeMap_maybeMergeWithPreviousEntry (map (apsnd g) ?es2) (?i + 1)
          else (Inr (), map (apsnd g) ?es2)) = (out3, map (apsnd g) es3)"
      proof (cases "?i + 1 < SortedRangeMap_size ?es2")
        case True
        with m3 have "SortedRangeMap_maybeMergeWithPreviousEntry ?es2 (?i + 1) = (out3, es3)"
          by simp
        then have "SortedRangeMap_maybeMergeWithPreviousEntry (map (apsnd g) ?es2) (?i + 1)
                     = (out3, map (apsnd g) es3)"
          by (simp add: maybeMerge_relabel [OF p2])
        with True show ?thesis by simp
      next
        case False
        with m3 show ?thesis by auto
      qed
      have v3: "snd ` set es3 \<subseteq> insert v (snd ` set es)"
        using maybeMerge_values [of ?es2 "?i + 1"] m3 v2 by (auto split: if_splits)
      have p3: "\<forall>a \<in> snd ` set es3. \<forall>b \<in> snd ` set es3.
                  strictEquals (g a) (g b) = strictEquals a b"
        by (rule ball_ball_subset [OF pres v3])
      have L: "SortedRangeMap_set es rng v =
                 (case out3 of Inl e \<Rightarrow> (Inl e, es3)
                  | Inr u \<Rightarrow> SortedRangeMap_maybeMergeWithPreviousEntry es3 ?i)"
        unfolding SortedRangeMap_set_def
        by (simp only: rng d out1 idx Let_def m3 sum.case prod.case)
      have R: "SortedRangeMap_set (map (apsnd g) es) rng (g v) =
                 (case out3 of Inl e \<Rightarrow> (Inl e, map (apsnd g) es3)
                  | Inr u \<Rightarrow> SortedRangeMap_maybeMergeWithPreviousEntry (map (apsnd g) es3) ?i)"
        unfolding SortedRangeMap_set_def
        by (simp only: rng d' out1 indexOf_relabel idx Let_def sp sz m3' sum.case prod.case)
      show ?thesis unfolding L R
        by (cases out3) (simp_all add: maybeMerge_relabel [OF p3])
    qed
  qed
qed

lemma those_map_option:
  "those (map (\<lambda>i. map_option h (k i)) xs) = map_option (map h) (those (map k xs))"
  by (induction xs) (auto simp: option.map_comp comp_def split: option.splits)

lemma slice_relabel:
  "SortedRangeMap_slice (map (apsnd g) es) rng =
     map_sum id (map (apsnd g)) (SortedRangeMap_slice es rng)"
proof -
  have cp: "those (map (\<lambda>index. map_option cloneEntry
                      (entry_at (map (apsnd g) es) (a + int index))) xs) =
            map_option (map (apsnd g))
              (those (map (\<lambda>index. map_option cloneEntry (entry_at es (a + int index))) xs))"
    for a xs
    using those_map_option [of "apsnd g" "\<lambda>index. map_option cloneEntry (entry_at es (a + int index))" xs]
    by (simp add: entry_at_map option.map_comp comp_def cloneEntry_id)
  have up: "(map (apsnd g) xs)[n := (a, g v)] = map (apsnd g) (xs[n := (a, v)])" for xs n a v
    by (simp add: map_update)
  show ?thesis
    unfolding SortedRangeMap_slice_def indicesOf_relabel cp
    by (auto simp: entry_at_map array_at_map up Let_def
        split: sum.splits option.splits prod.splits)
qed

lemma hasAll_loop_relabel:
  "SortedRangeMap_hasAll_loop (map (apsnd g) es) i l = SortedRangeMap_hasAll_loop es i l"
proof (induction es i l rule: SortedRangeMap_hasAll_loop.induct)
  case (1 entries index lastIndex)
  show ?case
  proof (cases "index \<le> lastIndex")
    case False
    then show ?thesis by simp
  next
    case True
    show ?thesis
    proof (cases "entry_at entries (index - 1)")
      case None
      then show ?thesis using True
        by (subst (1 2) SortedRangeMap_hasAll_loop.simps) (simp add: entry_at_map)
    next
      case p: (Some pe)
      obtain ps pe' pv where pe: "pe = ((ps, pe'), pv)" by (metis prod.exhaust)
      show ?thesis
      proof (cases "entry_at entries index")
        case None
        then show ?thesis using True p pe
          by (subst (1 2) SortedRangeMap_hasAll_loop.simps) (simp add: entry_at_map)
      next
        case c: (Some ce)
        obtain cs ce' cv where ce: "ce = ((cs, ce'), cv)" by (metis prod.exhaust)
        show ?thesis
        proof (cases "pe' + 1 \<noteq> cs")
          case ne: True
          then show ?thesis using True p pe c ce
            by (subst (1 2) SortedRangeMap_hasAll_loop.simps) (simp add: entry_at_map)
        next
          case False
          then have eq: "\<not> pe' + 1 \<noteq> cs" by simp
          have "SortedRangeMap_hasAll_loop (map (apsnd g) entries) (index + 1) lastIndex =
                SortedRangeMap_hasAll_loop entries (index + 1) lastIndex"
            by (rule 1 [OF True p [unfolded pe] refl refl c [unfolded ce] refl refl eq])
          then show ?thesis using True p pe c ce False
            by (subst (1 2) SortedRangeMap_hasAll_loop.simps) (simp add: entry_at_map)
        qed
      qed
    qed
  qed
qed

lemma hasAll_relabel:
  "SortedRangeMap_hasAll (map (apsnd g) es) rng = SortedRangeMap_hasAll es rng"
  unfolding SortedRangeMap_hasAll_def indexOf_relabel hasAll_loop_relabel ..

lemma hasAny_relabel:
  "SortedRangeMap_hasAny (map (apsnd g) es) rng = SortedRangeMap_hasAny es rng"
  unfolding SortedRangeMap_hasAny_def indexOf_relabel ..

lemma has_relabel:
  "SortedRangeMap_has (map (apsnd g) es) key = SortedRangeMap_has es key"
  unfolding SortedRangeMap_has_def indexOf_relabel ..

lemma get_relabel:
  "SortedRangeMap_get (map (apsnd g) es) key =
     map_sum id (map_option (apsnd g)) (SortedRangeMap_get es key)"
  unfolding SortedRangeMap_get_def indexOf_relabel
  by (auto simp: entry_at_map cloneEntry_id split: sum.splits option.splits)

lemma at_relabel:
  "SortedRangeMap_at (map (apsnd g) es) i = map_option (apsnd g) (SortedRangeMap_at es i)"
  unfolding SortedRangeMap_at_def
  by (auto simp: array_at_map cloneEntry_id split: option.splits)

lemma ranges_relabel:
  "map fst (SortedRangeMap_entries (map (apsnd g) es)) = SortedRangeMap_ranges es"
  by (simp add: SortedRangeMap_entries_def SortedRangeMap_ranges_def cloneEntry_id
      cloneRange_def comp_def case_prod_unfold)

lemma keys_relabel: "SortedRangeMap_keys (map (apsnd g) es) = SortedRangeMap_keys es"
  by (simp add: SortedRangeMap_keys_def comp_def case_prod_unfold)

lemma set_slice_eq: "SortedRangeSet_slice s rng = SortedRangeMap_slice s rng"
  by (simp add: SortedRangeSet_slice_def SortedRangeSet_constructor_def
      SortedRangeMap_constructor_def split: sum.splits)

lemma placeholder_relabel:
  assumes "strictEquals p p" "\<forall>e \<in> set s. snd e = PositiveZero"
  shows "SortedRangeMap_set (map (apsnd (\<lambda>_. p)) s) rng p =
           apsnd (map (apsnd (\<lambda>_. p))) (SortedRangeMap_set s rng PositiveZero)"
proof -
  have z: "a = PositiveZero" if "a \<in> insert PositiveZero (snd ` set s)" for a
    using that assms(2) by auto
  have "\<forall>a \<in> insert PositiveZero (snd ` set s). \<forall>b \<in> insert PositiveZero (snd ` set s).
          strictEquals ((\<lambda>_. p) a) ((\<lambda>_. p) b) = strictEquals a b"
  proof (intro ballI)
    fix a b
    assume "a \<in> insert PositiveZero (snd ` set s)" "b \<in> insert PositiveZero (snd ` set s)"
    then have "a = PositiveZero" "b = PositiveZero" by (simp_all only: z)
    then show "strictEquals p p = strictEquals a b" using assms(1) by simp
  qed
  from set_relabel [OF this] show ?thesis .
qed

lemma step_relabel:
  assumes "strictEquals p p" "\<forall>e \<in> set s. snd e = PositiveZero"
  shows "placeholder_map_step p (map (apsnd (\<lambda>_. p)) s) c =
           apsnd (map (apsnd (\<lambda>_. p))) (SortedRangeSet_step s c)"
proof -
  let ?g = "\<lambda>_ :: unit Value. p"
  show ?thesis
  proof (cases c)
    case (Set_add rng)
    then show ?thesis
      using placeholder_relabel [OF assms, of rng]
      by (simp add: SortedRangeSet_add_def split: prod.splits sum.splits)
  next
    case (Set_delete rng)
    then show ?thesis
      using delete_relabel [of ?g s rng]
      by (simp add: SortedRangeSet_delete_def split: prod.splits sum.splits)
  next
    case Set_clear
    then show ?thesis by (simp add: SortedRangeSet_clear_def SortedRangeMap_clear_def)
  next
    case (Set_slice rng)
    then show ?thesis
      using slice_relabel [of ?g s rng]
      by (auto simp: set_slice_eq SortedRangeSet_iterator_def ranges_relabel split: sum.splits)
  next
    case (Set_has key)
    then show ?thesis by (simp add: SortedRangeSet_has_def has_relabel split: sum.splits)
  next
    case (Set_hasAll rng)
    then show ?thesis by (simp add: SortedRangeSet_hasAll_def hasAll_relabel split: sum.splits)
  next
    case (Set_hasAny rng)
    then show ?thesis by (simp add: SortedRangeSet_hasAny_def hasAny_relabel split: sum.splits)
  next
    case (Set_at index)
    then show ?thesis
      by (auto simp: SortedRangeSet_at_def at_relabel option.map_comp comp_def
          split: option.splits)
  next
    case (Set_get key)
    then show ?thesis
      using get_relabel [of ?g s key]
      by (auto simp: SortedRangeSet_get_def split: sum.splits option.splits)
  next
    case (Set_indexOf key)
    then show ?thesis
      by (simp add: SortedRangeSet_indexOf_def indexOf_relabel split: sum.splits)
  next
    case Set_size
    then show ?thesis by (simp add: SortedRangeSet_size_def SortedRangeMap_size_def)
  next
    case Set_iterate
    then show ?thesis by (simp add: SortedRangeSet_iterator_def ranges_relabel)
  next
    case Set_keys
    then show ?thesis by (simp add: SortedRangeSet_keys_def keys_relabel)
  qed
qed

lemma observations_relabel:
  "strictEquals p p \<Longrightarrow> \<forall>e \<in> set s. snd e = PositiveZero \<Longrightarrow>
     observations (placeholder_map_step p) (map (apsnd (\<lambda>_. p)) s) cs =
       observations SortedRangeSet_step s cs"
proof (induction cs arbitrary: s)
  case Nil
  show ?case by simp
next
  case (Cons c cs)
  obtain obs s' where st: "SortedRangeSet_step s c = (obs, s')"
    by (cases "SortedRangeSet_step s c")
  then have "placeholder_map_step p (map (apsnd (\<lambda>_. p)) s) c = (obs, map (apsnd (\<lambda>_. p)) s')"
    by (simp add: step_relabel [OF Cons.prems])
  moreover have "\<forall>e \<in> set s'. snd e = PositiveZero"
    using set_step_values [OF Cons.prems(2), of c] st by simp
  ultimately show ?case using st Cons.IH [OF Cons.prems(1), of s'] by simp
qed

lemma constructor_loop_relabel:
  "strictEquals p p \<Longrightarrow> \<forall>e \<in> set this. snd e = PositiveZero \<Longrightarrow>
     SortedRangeMap_constructor_loop (map (apsnd (\<lambda>_. p)) this) (map (\<lambda>r. (r, p)) rs) =
       map_sum id (map (apsnd (\<lambda>_. p))) (SortedRangeSet_constructor_loop this rs)"
proof (induction rs arbitrary: this)
  case Nil
  show ?case by simp
next
  case (Cons r rs)
  obtain out this' where st: "SortedRangeMap_set this r PositiveZero = (out, this')"
    by (cases "SortedRangeMap_set this r PositiveZero")
  then have "SortedRangeMap_set (map (apsnd (\<lambda>_. p)) this) r p =
               (out, map (apsnd (\<lambda>_. p)) this')"
    using placeholder_relabel [OF Cons.prems, of r] by simp
  moreover have "\<forall>e \<in> set this'. snd e = PositiveZero"
    using set_values [of this r PositiveZero] st Cons.prems(2) by auto
  ultimately show ?case using st Cons.IH [OF Cons.prems(1), of this']
    by (cases out) (simp_all add: SortedRangeSet_add_def)
qed

lemma constructor_loop_values:
  "SortedRangeSet_constructor_loop this rs = Inr s \<Longrightarrow> \<forall>e \<in> set this. snd e = PositiveZero \<Longrightarrow>
     \<forall>e \<in> set s. snd e = PositiveZero"
proof (induction rs arbitrary: this)
  case Nil
  then show ?case by simp
next
  case (Cons r rs)
  obtain out this' where st: "SortedRangeMap_set this r PositiveZero = (out, this')"
    by (cases "SortedRangeMap_set this r PositiveZero")
  have z: "\<forall>e \<in> set this'. snd e = PositiveZero"
    using set_values [of this r PositiveZero] st Cons.prems(2) by auto
  from Cons.prems(1) st have "SortedRangeSet_constructor_loop this' rs = Inr s"
    by (cases out) (simp_all add: SortedRangeSet_add_def)
  from Cons.IH [OF this z] show ?case .
qed

text \<open>\<^verbatim>\<open>NaN\<close> could not be the placeholder: a map that stores it never merges two entries, and
  after adding two adjacent ranges the set has one entry where such a map has two.\<close>

lemma NaN_is_no_placeholder:
  "observations (placeholder_map_step (NotANumber :: unit Value)) []
     [Set_add (Finite 1, Finite 2), Set_add (Finite 3, Finite 4), Set_size]
     = [Returned_this, Returned_this, Returned_number 2] \<and>
   observations SortedRangeSet_step []
     [Set_add (Finite 1, Finite 2), Set_add (Finite 3, Finite 4), Set_size]
     = [Returned_this, Returned_this, Returned_number 1]"
  by code_simp

text \<open>
  Claim C9. A set behaves as a map used with one placeholder value, whatever that value is
  as long as it is equal to itself, which every value but \<^verbatim>\<open>NaN\<close> is, the \<^verbatim>\<open>0\<close> of the code
  among them: built from the same ranges, both fail the same way or both exist, hold the
  same ranges, and then for every sequence of \<^verbatim>\<open>add\<close>, \<^verbatim>\<open>delete\<close>, \<^verbatim>\<open>clear\<close>, \<^verbatim>\<open>slice\<close>, \<^verbatim>\<open>has\<close>,
  \<^verbatim>\<open>hasAll\<close>, \<^verbatim>\<open>hasAny\<close>, \<^verbatim>\<open>at\<close>, \<^verbatim>\<open>get\<close>, \<^verbatim>\<open>indexOf\<close>, \<^verbatim>\<open>size\<close>, iteration and \<^verbatim>\<open>keys\<close> the set
  returns what the map returns with the value component stripped.
\<close>

theorem set_is_map_with_placeholder:
  assumes "strictEquals p p"
  shows "(case SortedRangeSet_constructor init of
      Inl e \<Rightarrow> SortedRangeMap_constructor (map_option (map (\<lambda>r. (r, p))) init) = Inl e
    | Inr s \<Rightarrow>
        (\<exists>m. SortedRangeMap_constructor (map_option (map (\<lambda>r. (r, p))) init) = Inr m \<and>
             m = map (\<lambda>(r, _). (r, p)) s \<and>
             observations (placeholder_map_step p) m cs = observations SortedRangeSet_step s cs))"
proof -
  let ?R = "map (apsnd (\<lambda>_ :: unit Value. p))"
  have R: "?R = map (\<lambda>(r, _). (r, p))" by (simp add: apsnd_def map_prod_def)
  have c: "SortedRangeMap_constructor (map_option (map (\<lambda>r. (r, p))) init) =
             map_sum id ?R (SortedRangeSet_constructor init)"
  proof (cases init)
    case None
    then show ?thesis
      by (simp add: SortedRangeSet_constructor_def SortedRangeMap_constructor_def)
  next
    case (Some rs)
    then show ?thesis
      using constructor_loop_relabel [OF assms, of "[]" rs]
      by (simp add: SortedRangeSet_constructor_def SortedRangeMap_constructor_def)
  qed
  show ?thesis
  proof (cases "SortedRangeSet_constructor init")
    case (Inl e)
    with c show ?thesis by simp
  next
    case (Inr s)
    have "\<forall>e \<in> set s. snd e = PositiveZero"
    proof (cases init)
      case None
      with Inr show ?thesis
        by (simp add: SortedRangeSet_constructor_def SortedRangeMap_constructor_def)
    next
      case (Some rs)
      with Inr have "SortedRangeSet_constructor_loop [] rs = Inr s"
        by (simp add: SortedRangeSet_constructor_def SortedRangeMap_constructor_def)
      from constructor_loop_values [OF this] show ?thesis by simp
    qed
    from observations_relabel [OF assms this, of cs] c Inr show ?thesis by (simp add: R)
  qed
qed

theorem set_is_map_with_placeholder_witness:
  "strictEquals (PositiveZero :: string Value) PositiveZero \<and>
   SortedRangeSet_constructor (Some [(Finite 5, Finite 6)]) = Inr [((5, 6), PositiveZero)] \<and>
   SortedRangeMap_constructor (Some [((Finite 5, Finite 6), PositiveZero :: string Value)])
     = Inr [((5, 6), PositiveZero)] \<and>
   observations (placeholder_map_step (PositiveZero :: string Value)) [((5, 6), PositiveZero)]
     [Set_add (Finite 1, Finite 4), Set_get 3, Set_iterate] =
   observations SortedRangeSet_step [((5, 6), PositiveZero)]
     [Set_add (Finite 1, Finite 4), Set_get 3, Set_iterate]"
proof -
  let ?cs = "[Set_add (Finite 1, Finite 4), Set_get 3, Set_iterate]"
  let ?p = "PositiveZero :: string Value"
  have p: "strictEquals ?p ?p" by simp
  have s: "SortedRangeSet_constructor (Some [(Finite 5, Finite 6)]) = Inr [((5, 6), PositiveZero)]"
    by code_simp
  have m: "SortedRangeMap_constructor (Some [((Finite 5, Finite 6), ?p)]) = Inr [((5, 6), ?p)]"
    by code_simp
  from set_is_map_with_placeholder [OF p, where init = "Some [(Finite 5, Finite 6)]" and cs = ?cs]
  have "observations (placeholder_map_step ?p) [((5, 6), ?p)] ?cs =
        observations SortedRangeSet_step [((5, 6), PositiveZero)] ?cs"
    by (simp add: s m)
  with p s m show ?thesis by blast
qed

end
